theory Spec2Isabelle
  imports Main "HOL-Library.Sublist" "HOL-Library.Char_ord" "HOL-Library.List_Lexorder"
begin

text \<open>
  A shallow embedding of \<^verbatim>\<open>compare_epub.py\<close>. Python \<^verbatim>\<open>str\<close> values are modelled as
  Isabelle strings, a character standing for the code point of the same number; code
  points from 256 on are outside the model. \<^verbatim>\<open>os.path\<close> is \<^verbatim>\<open>posixpath\<close>. Byte strings
  are lists of characters as well.
\<close>

section \<open>Strings\<close>

type_synonym bytes = "char list"

definition startswith :: "string \<Rightarrow> string \<Rightarrow> bool" where
  "startswith s p = prefix p s"

definition endswith :: "string \<Rightarrow> string \<Rightarrow> bool" where
  "endswith s p = suffix p s"

text \<open>\<^verbatim>\<open>sub in s\<close> on strings.\<close>

definition contains :: "string \<Rightarrow> string \<Rightarrow> bool" where
  "contains sub s = sublist sub s"

text \<open>\<^verbatim>\<open>str.isspace\<close> on the code points below 256.\<close>

definition isspace :: "char \<Rightarrow> bool" where
  "isspace c = (let n = (of_char c :: nat)
                in (9 \<le> n \<and> n \<le> 13) \<or> (28 \<le> n \<and> n \<le> 32) \<or> n = 133 \<or> n = 160)"

definition strip :: "string \<Rightarrow> string" where
  "strip s = rev (dropWhile isspace (rev (dropWhile isspace s)))"

text \<open>\<^verbatim>\<open>s.strip(chars)\<close> for a one-character argument.\<close>

definition strip_char :: "char \<Rightarrow> string \<Rightarrow> string" where
  "strip_char ch s = rev (dropWhile (\<lambda>c. c = ch) (rev (dropWhile (\<lambda>c. c = ch) s)))"

definition rstrip_char :: "char \<Rightarrow> string \<Rightarrow> string" where
  "rstrip_char ch s = rev (dropWhile (\<lambda>c. c = ch) (rev s))"

text \<open>\<^verbatim>\<open>str.lower\<close> on the code points below 256: A-Z and the capital letters of Latin-1.\<close>

definition lower_char :: "char \<Rightarrow> char" where
  "lower_char c = (let n = (of_char c :: nat)
                   in if (65 \<le> n \<and> n \<le> 90) \<or> (192 \<le> n \<and> n \<le> 222 \<and> n \<noteq> 215)
                      then char_of (n + 32) else c)"

definition lower :: "string \<Rightarrow> string" where
  "lower s = map lower_char s"

definition backslash :: char where
  "backslash = CHR 0x5C"

text \<open>\<^verbatim>\<open>s.replace('\\', '/')\<close>.\<close>

definition replace_backslash :: "string \<Rightarrow> string" where
  "replace_backslash s = map (\<lambda>c. if c = backslash then CHR ''/'' else c) s"

text \<open>\<^verbatim>\<open>s.split(sep)\<close> for a one-character separator: never the empty list.\<close>

fun split_sep :: "char \<Rightarrow> string \<Rightarrow> string list" where
  "split_sep sep [] = [[]]"
| "split_sep sep (c # cs) =
     (if c = sep then [] # split_sep sep cs
      else (case split_sep sep cs of
              [] \<Rightarrow> [[c]]
            | w # ws \<Rightarrow> (c # w) # ws))"

text \<open>\<^verbatim>\<open>sep.join(parts)\<close>.\<close>

fun join :: "string \<Rightarrow> string list \<Rightarrow> string" where
  "join sep [] = []"
| "join sep [x] = x"
| "join sep (x # y # ys) = x @ sep @ join sep (y # ys)"

section \<open>Paths (posixpath)\<close>

text \<open>
  The loop of \<^verbatim>\<open>posixpath.normpath\<close> over the components:
  \<^verbatim>\<open>
  for comp in comps:
      if comp in (empty, dot): continue
      if (comp != dotdot or (not initial_slashes and not new_comps) or
           (new_comps and new_comps[-1] == dotdot)):
          new_comps.append(comp)
      elif new_comps:
          new_comps.pop()
  \<close>
\<close>

fun norm_comps :: "nat \<Rightarrow> string list \<Rightarrow> string list \<Rightarrow> string list" where
  "norm_comps initial_slashes new_comps [] = new_comps"
| "norm_comps initial_slashes new_comps (comp' # comps) =
     (if comp' = [] \<or> comp' = ''.'' then norm_comps initial_slashes new_comps comps
      else if comp' \<noteq> ''..'' \<or> (initial_slashes = 0 \<and> new_comps = [])
                \<or> (new_comps \<noteq> [] \<and> last new_comps = ''..'')
           then norm_comps initial_slashes (new_comps @ [comp']) comps
      else if new_comps \<noteq> [] then norm_comps initial_slashes (butlast new_comps) comps
      else norm_comps initial_slashes new_comps comps)"

definition normpath :: "string \<Rightarrow> string" where
  "normpath path =
     (if path = [] then ''.''
      else
        let initial_slashes =
              (if startswith path ''/''
               then (if startswith path ''//'' \<and> \<not> startswith path ''///'' then 2 else 1)
               else (0::nat));
            comps = norm_comps initial_slashes [] (split_sep CHR ''/'' path);
            p = join ''/'' comps;
            p' = (if initial_slashes \<noteq> 0 then replicate initial_slashes CHR ''/'' @ p else p)
        in if p' = [] then ''.'' else p')"

text \<open>
  \<^verbatim>\<open>
  def normalize_path(path: str) -> str:
      if path is None:
          return ''
      norm = os.path.normpath(path).replace('\\', '/').strip()
      if norm.startswith('./'):
          norm = norm[2:]
      return norm
  \<close>
  The callers pass strings only, so the \<^verbatim>\<open>None\<close> branch has no counterpart.
\<close>

definition normalize_path :: "string \<Rightarrow> string" where
  "normalize_path path =
     (let norm = strip (replace_backslash (normpath path))
      in if startswith norm ''./'' then drop 2 norm else norm)"

text \<open>\<^verbatim>\<open>posixpath.dirname\<close>: the head up to the last slash, its trailing slashes removed
  unless it consists of slashes only.\<close>

definition dirname :: "string \<Rightarrow> string" where
  "dirname p =
     (let head = rev (dropWhile (\<lambda>c. c \<noteq> CHR ''/'') (rev p))
      in if head \<noteq> [] \<and> head \<noteq> replicate (length head) CHR ''/''
         then rstrip_char CHR ''/'' head else head)"

definition basename :: "string \<Rightarrow> string" where
  "basename p = rev (takeWhile (\<lambda>c. c \<noteq> CHR ''/'') (rev p))"

text \<open>\<^verbatim>\<open>posixpath.join(a, b)\<close>.\<close>

definition path_join :: "string \<Rightarrow> string \<Rightarrow> string" where
  "path_join a b =
     (if startswith b ''/'' then b
      else if a = [] \<or> endswith a ''/'' then a @ b
      else a @ ''/'' @ b)"

section \<open>Archives\<close>

text \<open>
  An opened \<^verbatim>\<open>zipfile.ZipFile\<close>: its entries in listing order, each with the name as
  stored, the compression method (0 is \<^verbatim>\<open>ZIP_STORED\<close>) and the uncompressed bytes.
  \<^verbatim>\<open>getinfo\<close> and \<^verbatim>\<open>read\<close> look a name up in \<^verbatim>\<open>NameToInfo\<close>, where the last entry of
  a name wins, and raise \<^verbatim>\<open>KeyError\<close> for a name that is not there.
\<close>

record zip_entry =
  filename :: string
  compress_type :: nat
  file_data :: bytes

type_synonym zipfile = "zip_entry list"

datatype error = KeyError | SyntaxError | UnboundLocalError | TypeError

definition ZIP_STORED :: nat where
  "ZIP_STORED = 0"

definition namelist :: "zipfile \<Rightarrow> string list" where
  "namelist z = map filename z"

definition getinfo :: "zipfile \<Rightarrow> string \<Rightarrow> error + zip_entry" where
  "getinfo z name =
     (case filter (\<lambda>e. filename e = name) z of
        [] \<Rightarrow> Inl KeyError
      | e # es \<Rightarrow> Inr (last (e # es)))"

definition zip_read :: "zipfile \<Rightarrow> string \<Rightarrow> error + bytes" where
  "zip_read z name = (case getinfo z name of Inl e \<Rightarrow> Inl e | Inr info \<Rightarrow> Inr (file_data info))"

text \<open>
  \<^verbatim>\<open>
  def zip_namelist_files(z):
      names = z.namelist()
      return [normalize_path(n) for n in names if not n.endswith('/')]
  \<close>
\<close>

definition zip_namelist_files :: "zipfile \<Rightarrow> string list" where
  "zip_namelist_files z = map normalize_path (filter (\<lambda>n. \<not> endswith n ''/'') (namelist z))"

text \<open>
  What the code takes from the Python library and no claim depends on: the XML parser
  (\<^verbatim>\<open>ET.fromstring\<close>, \<open>None\<close> for \<^verbatim>\<open>ParseError\<close>), UTF-8 decoding with replacement
  characters, and the SHA-1 digest in hexadecimal.
\<close>

datatype element = Element (tag: string) (attrib: "(string \<times> string) list") (children: "element list")

record pylib =
  fromstring :: "string \<Rightarrow> element option"
  decode_utf8 :: "bytes \<Rightarrow> string"
  sha1_hexdigest :: "bytes \<Rightarrow> string"

datatype encoding = Utf8_replace | Ascii_ignore

definition decode :: "pylib \<Rightarrow> encoding \<Rightarrow> bytes \<Rightarrow> string" where
  "decode lib enc d =
     (case enc of
        Utf8_replace \<Rightarrow> decode_utf8 lib d
      | Ascii_ignore \<Rightarrow> filter (\<lambda>c. (of_char c :: nat) < 128) d)"

text \<open>
  \<^verbatim>\<open>read_text_from_zip\<close>: both encodings the code passes exist, so the \<^verbatim>\<open>LookupError\<close>
  handler is never entered; a missing name raises \<^verbatim>\<open>KeyError\<close>.
\<close>

definition read_text_from_zip :: "pylib \<Rightarrow> zipfile \<Rightarrow> string \<Rightarrow> encoding \<Rightarrow> error + string" where
  "read_text_from_zip lib z name enc =
     (case zip_read z name of Inl e \<Rightarrow> Inl e | Inr d \<Rightarrow> Inr (decode lib enc d))"

section \<open>XML queries\<close>

text \<open>\<^verbatim>\<open>Element.iter()\<close>: the element and its descendants in document order.\<close>

fun iter_elems :: "element \<Rightarrow> element list" where
  "iter_elems (Element t a cs) = Element t a cs # concat (map iter_elems cs)"

text \<open>\<^verbatim>\<open>e.get(key)\<close> and the idiom \<^verbatim>\<open>e.get(key) or ''\<close>.\<close>

definition elem_get :: "element \<Rightarrow> string \<Rightarrow> string option" where
  "elem_get e key = map_of (attrib e) key"

definition get_or_empty :: "element \<Rightarrow> string \<Rightarrow> string" where
  "get_or_empty e key = (case elem_get e key of None \<Rightarrow> [] | Some v \<Rightarrow> v)"

text \<open>
  How \<^verbatim>\<open>ElementPath\<close> compares one step of a path with an element's tag: a step
  \<^verbatim>\<open>{*}name\<close> selects \<^verbatim>\<open>name\<close> in any or no namespace, any other step the code builds
  selects the equal tag.
\<close>

definition tag_select :: "string \<Rightarrow> string \<Rightarrow> bool" where
  "tag_select step el_tag =
     (if take 3 step = ''{*}''
      then el_tag = drop 3 step \<or> endswith el_tag (drop 2 step)
      else el_tag = (if take 2 step = ''{}'' then drop 2 step else step))"

text \<open>\<^verbatim>\<open>doc.findall('.//a')\<close>: the proper descendants selected by the step.\<close>

definition findall_desc :: "element \<Rightarrow> string \<Rightarrow> element list" where
  "findall_desc doc a = filter (\<lambda>e. tag_select a (tag e)) (concat (map iter_elems (children doc)))"

text \<open>\<^verbatim>\<open>doc.findall('.//a/b')\<close>: the children selected by \<open>b\<close> of those descendants.\<close>

definition findall_desc_child :: "element \<Rightarrow> string \<Rightarrow> string \<Rightarrow> element list" where
  "findall_desc_child doc a b =
     concat (map (\<lambda>d. filter (\<lambda>c. tag_select b (tag c)) (children d)) (findall_desc doc a))"

section \<open>Container Resolver\<close>

text \<open>
  \<^verbatim>\<open>
  def get_rootfile_from_container(xml_text):
      try:
          doc = ET.fromstring(xml_text)
      except ET.ParseError:
          return None
      rootfiles = doc.findall('.//{*}rootfile')
      if not rootfiles:
          return None
      full = rootfiles[0].get('full-path') or rootfiles[0].get('fullPath')
      return normalize_path(full) if full else None
  \<close>
\<close>

definition get_rootfile_from_container :: "pylib \<Rightarrow> string \<Rightarrow> string option" where
  "get_rootfile_from_container lib xml_text =
     (case fromstring lib xml_text of
        None \<Rightarrow> None
      | Some doc \<Rightarrow>
          (case findall_desc doc ''{*}rootfile'' of
             [] \<Rightarrow> None
           | r # rs \<Rightarrow>
               (let full = (case elem_get r ''full-path'' of
                              None \<Rightarrow> elem_get r ''fullPath''
                            | Some v \<Rightarrow> if v \<noteq> [] then Some v else elem_get r ''fullPath'')
                in case full of
                     None \<Rightarrow> None
                   | Some f \<Rightarrow> if f \<noteq> [] then Some (normalize_path f) else None)))"

section \<open>Package Parser\<close>

record opf =
  manifest_paths :: "string list"
  spine_paths :: "string list"
  manifest_map :: "string \<rightharpoonup> string"

record manifest_state =
  ms_paths :: "string list"
  ms_map :: "string \<rightharpoonup> string"
  ms_id_to_href :: "string \<rightharpoonup> string"

definition join_href :: "string \<Rightarrow> string \<Rightarrow> string" where
  "join_href base_dir href = normalize_path (path_join base_dir href)"

text \<open>
  The manifest loop:
  \<^verbatim>\<open>
  for item in ...:
      href = item.get('href') or ''
      media_type = item.get('media-type') or ''
      id_attr = item.get('id') or ''
      if not href:
          continue
      full = join_href(href)
      manifest_paths.append(full)
      if media_type:
          manifest_map[full] = media_type
      if id_attr:
          id_to_href[id_attr] = full
  \<close>
\<close>

fun manifest_loop :: "string \<Rightarrow> element list \<Rightarrow> manifest_state \<Rightarrow> manifest_state" where
  "manifest_loop base_dir [] st = st"
| "manifest_loop base_dir (item # items) st =
     (let href = get_or_empty item ''href'';
          media_type = get_or_empty item ''media-type'';
          id_attr = get_or_empty item ''id''
      in if href = [] then manifest_loop base_dir items st
         else
           let full = join_href base_dir href
           in manifest_loop base_dir items
                \<lparr> ms_paths = ms_paths st @ [full],
                  ms_map = (if media_type \<noteq> [] then (ms_map st)(full \<mapsto> media_type) else ms_map st),
                  ms_id_to_href = (if id_attr \<noteq> [] then (ms_id_to_href st)(id_attr \<mapsto> full)
                                   else ms_id_to_href st) \<rparr>)"

text \<open>
  The spine loop:
  \<^verbatim>\<open>
  for it in ...:
      idref = it.get('idref') or ''
      full = id_to_href.get(idref)
      if full:
          spine_paths.append(full)
  \<close>
\<close>

fun spine_loop :: "(string \<rightharpoonup> string) \<Rightarrow> element list \<Rightarrow> string list \<Rightarrow> string list" where
  "spine_loop id_to_href [] spine = spine"
| "spine_loop id_to_href (it # its) spine =
     (case id_to_href (get_or_empty it ''idref'') of
        None \<Rightarrow> spine_loop id_to_href its spine
      | Some full \<Rightarrow>
          if full \<noteq> [] then spine_loop id_to_href its (spine @ [full])
          else spine_loop id_to_href its spine)"

text \<open>\<^verbatim>\<open>doc.tag.split('}')[0].strip('{') if '}' in doc.tag else ''\<close>.\<close>

definition ns_uri_of :: "element \<Rightarrow> string" where
  "ns_uri_of doc =
     (if CHR ''}'' \<in> set (tag doc)
      then strip_char CHR ''{'' (takeWhile (\<lambda>c. c \<noteq> CHR ''}'') (tag doc))
      else [])"

text \<open>A prefixed step \<^verbatim>\<open>opf:name\<close> under the prefix map \<^verbatim>\<open>{'opf': ns_uri}\<close>.\<close>

definition qualify :: "string \<Rightarrow> string \<Rightarrow> string" where
  "qualify ns_uri name = ''{'' @ ns_uri @ ''}'' @ name"

text \<open>
  \<^verbatim>\<open>parse_opf\<close>. With an empty \<open>ns_uri\<close> the prefix map \<^verbatim>\<open>ns\<close> is the empty dictionary,
  and \<^verbatim>\<open>doc.findall('.//opf:manifest/opf:item', ns)\<close> raises \<^verbatim>\<open>SyntaxError\<close> (prefix
  'opf' not found in prefix map) before the unqualified query is reached.
\<close>

definition parse_opf :: "pylib \<Rightarrow> string \<Rightarrow> string \<Rightarrow> error + opf" where
  "parse_opf lib opf_text opf_path =
     (let base_dir = normalize_path (dirname opf_path)
      in case fromstring lib opf_text of
           None \<Rightarrow> Inr \<lparr> manifest_paths = [], spine_paths = [], manifest_map = Map.empty \<rparr>
         | Some doc \<Rightarrow>
             (let ns_uri = ns_uri_of doc
              in if ns_uri = [] then Inl SyntaxError
                 else
                   let q_items = findall_desc_child doc (qualify ns_uri ''manifest'')
                                   (qualify ns_uri ''item'');
                       items = (if q_items \<noteq> [] then q_items
                                else findall_desc_child doc ''manifest'' ''item'');
                       st = manifest_loop base_dir items
                              \<lparr> ms_paths = [], ms_map = Map.empty, ms_id_to_href = Map.empty \<rparr>;
                       q_refs = findall_desc_child doc (qualify ns_uri ''spine'')
                                  (qualify ns_uri ''itemref'');
                       refs = (if q_refs \<noteq> [] then q_refs
                               else findall_desc_child doc ''spine'' ''itemref'')
                   in Inr \<lparr> manifest_paths = ms_paths st,
                            spine_paths = spine_loop (ms_id_to_href st) refs [],
                            manifest_map = ms_map st \<rparr>))"

section \<open>The report\<close>

text \<open>
  One constructor for each \<^verbatim>\<open>report_lines.append\<close> of the source, holding the values
  the line is formatted from. The returned text is these lines joined by newlines.
\<close>

datatype report_line =
    Orig_path string
  | Tran_path string
  | File_counts_banner
  | Orig_files nat
  | Tran_files nat
  | Missing_in_translated
  | Extra_in_translated
  | Name_list "string list" bool
  | Mimetype_missing string
  | Mimetype_info string string bool nat
  | Mimetype_content_invalid string
  | Mimetype_not_first string
  | Mimetype_not_stored string
  | Opf_paths_banner
  | Orig_opf "string option"
  | Tran_opf "string option"
  | Opf_path_differs
  | Manifest_missing_in_translated
  | Manifest_extra_in_translated
  | Media_type_diff string string string
  | Spine_length nat nat
  | First_spine_diff_index int
  | Orig_manifest_missing_file string
  | Tran_manifest_missing_file string
  | Bad_xhtml_header
  | Content_diff_banner
  | Changed_file string nat nat string string
  | No_content_diffs
  | Html_issues_banner
  | Html_issue string
  | Summary_banner
  | Summary_files_differ
  | Summary_opf_path_differs
  | Summary_manifest_differs
  | Summary_media_type_differs nat
  | Summary_spine_differs
  | Summary_non_html_changed "string list"
  | Summary_html_issues
  | Summary_hint

text \<open>\<^verbatim>\<open>sorted(s)\<close> of a set of strings.\<close>

definition sorted_set :: "string set \<Rightarrow> string list" where
  "sorted_set s = sorted_list_of_set s"

text \<open>\<^verbatim>\<open>', '.join(xs[:n]) + (' ...' if len(xs) > n else '')\<close>.\<close>

definition name_list :: "nat \<Rightarrow> string list \<Rightarrow> report_line" where
  "name_list n xs = Name_list (take n xs) (length xs > n)"

section \<open>Structural Differ: file sets\<close>

text \<open>
  \<^verbatim>\<open>
  missing = sorted(set_o - set_t)
  extra = sorted(set_t - set_o)
  \<close>
\<close>

definition missing_files :: "string list \<Rightarrow> string list \<Rightarrow> string list" where
  "missing_files names_o names_t = sorted_set (set names_o - set names_t)"

definition extra_files :: "string list \<Rightarrow> string list \<Rightarrow> string list" where
  "extra_files names_o names_t = sorted_set (set names_t - set names_o)"

definition file_set_lines :: "string list \<Rightarrow> string list \<Rightarrow> report_line list" where
  "file_set_lines names_o names_t =
     (let missing = missing_files names_o names_t;
          extra = extra_files names_o names_t
      in (if missing \<noteq> [] then [Missing_in_translated, name_list 50 missing] else [])
         @ (if extra \<noteq> [] then [Extra_in_translated, name_list 50 extra] else []))"

section \<open>Structural Differ: the mimetype entry\<close>

text \<open>
  The body of the loop over the two archives:
  \<^verbatim>\<open>
  if 'mimetype' not in names:
      report_lines.append(f'[{label}] missing mimetype file')
      continue
  info = zf.getinfo('mimetype')
  content = read_text_from_zip(zf, 'mimetype', encoding='ascii', errors='ignore').strip()
  is_first = (names[0] == 'mimetype') if names else False
  compress = info.compress_type
  report_lines.append(...)
  if content != 'application/epub+zip': ...
  if not is_first: ...
  if compress != zipfile.ZIP_STORED: ...
  \<close>
  \<open>names\<close> is the normalized listing, while \<^verbatim>\<open>getinfo\<close> takes the name as stored.
\<close>

definition mimetype_check :: "pylib \<Rightarrow> string \<Rightarrow> zipfile \<Rightarrow> string list \<Rightarrow> error + report_line list" where
  "mimetype_check lib label zf names =
     (if ''mimetype'' \<notin> set names then Inr [Mimetype_missing label]
      else
        case getinfo zf ''mimetype'' of
          Inl e \<Rightarrow> Inl e
        | Inr info \<Rightarrow>
            (case read_text_from_zip lib zf ''mimetype'' Ascii_ignore of
               Inl e \<Rightarrow> Inl e
             | Inr text \<Rightarrow>
                 (let content = strip text;
                      is_first = (case names of [] \<Rightarrow> False | n # ns \<Rightarrow> n = ''mimetype'');
                      compress = compress_type info
                  in Inr ([Mimetype_info label content is_first compress]
                          @ (if content \<noteq> ''application/epub+zip''
                             then [Mimetype_content_invalid label] else [])
                          @ (if \<not> is_first then [Mimetype_not_first label] else [])
                          @ (if compress \<noteq> ZIP_STORED then [Mimetype_not_stored label] else [])))))"

definition mimetype_checks :: "pylib \<Rightarrow> zipfile \<Rightarrow> string list \<Rightarrow> zipfile \<Rightarrow> string list \<Rightarrow> error + report_line list" where
  "mimetype_checks lib zo names_o zt names_t =
     (case mimetype_check lib ''orig'' zo names_o of
        Inl e \<Rightarrow> Inl e
      | Inr ls_o \<Rightarrow>
          (case mimetype_check lib ''tran'' zt names_t of
             Inl e \<Rightarrow> Inl e
           | Inr ls_t \<Rightarrow> Inr (ls_o @ ls_t)))"

section \<open>Locating and parsing the package document\<close>

text \<open>
  \<^verbatim>\<open>
  def extract_opf(zf):
      if 'META-INF/container.xml' not in zf.namelist():
          return None, None, None
      ctext = read_text_from_zip(zf, 'META-INF/container.xml')
      opf_rel = get_rootfile_from_container(ctext)
      if not opf_rel or opf_rel not in zf.namelist():
          return ctext, opf_rel, None
      opf_text = read_text_from_zip(zf, opf_rel)
      parsed = parse_opf(opf_text, opf_rel)
      return ctext, opf_rel, parsed
  \<close>
\<close>

definition extract_opf :: "pylib \<Rightarrow> zipfile \<Rightarrow> error + (string option \<times> string option \<times> opf option)" where
  "extract_opf lib zf =
     (if ''META-INF/container.xml'' \<notin> set (namelist zf) then Inr (None, None, None)
      else
        case read_text_from_zip lib zf ''META-INF/container.xml'' Utf8_replace of
          Inl e \<Rightarrow> Inl e
        | Inr ctext \<Rightarrow>
            (case get_rootfile_from_container lib ctext of
               None \<Rightarrow> Inr (Some ctext, None, None)
             | Some opf_rel \<Rightarrow>
                 if opf_rel = [] \<or> opf_rel \<notin> set (namelist zf)
                 then Inr (Some ctext, Some opf_rel, None)
                 else
                   (case read_text_from_zip lib zf opf_rel Utf8_replace of
                      Inl e \<Rightarrow> Inl e
                    | Inr opf_text \<Rightarrow>
                        (case parse_opf lib opf_text opf_rel of
                           Inl e \<Rightarrow> Inl e
                         | Inr parsed \<Rightarrow> Inr (Some ctext, Some opf_rel, Some parsed)))))"

section \<open>Structural Differ: manifest, media types, reading order\<close>

text \<open>\<^verbatim>\<open>d.get(p, '')\<close> on the media-type dictionary.\<close>

definition media_type_of :: "opf \<Rightarrow> string \<Rightarrow> string" where
  "media_type_of parsed p = (case manifest_map parsed p of None \<Rightarrow> [] | Some v \<Rightarrow> v)"

text \<open>
  The spine comparison of \<^verbatim>\<open>compare_epub\<close>:
  \<^verbatim>\<open>
  min_len = min(len(spine_o), len(spine_t))
  diff_idx = -1
  for i in range(min_len):
      if spine_o[i] != spine_t[i]:
          diff_idx = i
          break
  \<close>
  The loop is a recursion on the index \<open>i\<close>; leaving the range returns the initial
  value \<open>-1\<close> of \<^verbatim>\<open>diff_idx\<close>.
\<close>

function spine_diff_from :: "'a list \<Rightarrow> 'a list \<Rightarrow> nat \<Rightarrow> int" where
  "spine_diff_from spine_o spine_t i =
     (if i < min (length spine_o) (length spine_t)
      then (if spine_o ! i \<noteq> spine_t ! i then int i
            else spine_diff_from spine_o spine_t (Suc i))
      else - 1)"
  by pat_completeness auto
termination
  by (relation "measure (\<lambda>(spine_o, spine_t, i). min (length spine_o) (length spine_t) - i)") auto

declare spine_diff_from.simps [simp del]

definition spine_diff_idx :: "'a list \<Rightarrow> 'a list \<Rightarrow> int" where
  "spine_diff_idx spine_o spine_t = spine_diff_from spine_o spine_t 0"

text \<open>
  The variables the block under \<^verbatim>\<open>if opf_o and opf_t:\<close> binds and the summary reads
  later; they stay unbound when the block is skipped.
\<close>

record opf_cmp =
  man_missing :: "string list"
  man_extra :: "string list"
  diff_idx :: int

text \<open>
  The well-formedness sample: \<^verbatim>\<open>read_text_from_zip\<close> and \<^verbatim>\<open>ET.fromstring\<close> under
  \<^verbatim>\<open>except Exception\<close>.
\<close>

definition well_formed_in :: "pylib \<Rightarrow> zipfile \<Rightarrow> string \<Rightarrow> bool" where
  "well_formed_in lib zt p =
     (case read_text_from_zip lib zt p Utf8_replace of
        Inl e \<Rightarrow> False
      | Inr text_t \<Rightarrow> fromstring lib text_t \<noteq> None)"

text \<open>
  The block under \<^verbatim>\<open>if opf_o and opf_t:\<close>. The two existence loops run over Python
  sets, whose iteration order is not specified; the model takes them in sorted order.
\<close>

definition opf_compare ::
  "pylib \<Rightarrow> zipfile \<Rightarrow> string set \<Rightarrow> string set \<Rightarrow> opf \<Rightarrow> opf \<Rightarrow> report_line list \<times> opf_cmp" where
  "opf_compare lib zt set_o set_t opf_o opf_t =
     (let man_o = set (manifest_paths opf_o);
          man_t = set (manifest_paths opf_t);
          man_missing = sorted_set (man_o - man_t);
          man_extra = sorted_set (man_t - man_o);
          common = sorted_set (man_o \<inter> man_t);
          spine_o = spine_paths opf_o;
          spine_t = spine_paths opf_t;
          diff_idx = spine_diff_idx spine_o spine_t;
          xhtml_common = filter (\<lambda>p. manifest_map opf_o p = Some ''application/xhtml+xml'') common;
          bad_xhtml = filter (\<lambda>p. \<not> well_formed_in lib zt p) (take 50 xhtml_common)
      in ((if man_missing \<noteq> [] then [Manifest_missing_in_translated, name_list 50 man_missing] else [])
          @ (if man_extra \<noteq> [] then [Manifest_extra_in_translated, name_list 50 man_extra] else [])
          @ map (\<lambda>p. Media_type_diff p (media_type_of opf_o p) (media_type_of opf_t p))
              (filter (\<lambda>p. media_type_of opf_o p \<noteq> media_type_of opf_t p) common)
          @ [Spine_length (length spine_o) (length spine_t), First_spine_diff_index diff_idx]
          @ map Orig_manifest_missing_file (filter (\<lambda>p. p \<notin> set_o) (sorted_set man_o))
          @ map Tran_manifest_missing_file (filter (\<lambda>p. p \<notin> set_t) (sorted_set man_t))
          @ (if bad_xhtml \<noteq> [] then [Bad_xhtml_header, name_list 20 bad_xhtml] else []),
          \<lparr> man_missing = man_missing, man_extra = man_extra, diff_idx = diff_idx \<rparr>))"

section \<open>Content Differ\<close>

record diff_state =
  changed :: "report_line list"
  non_html_changed :: "string list"
  changed_html_paths :: "string list"
  changed_blobs_t :: "string \<rightharpoonup> bytes"

text \<open>
  \<^verbatim>\<open>
  for p in common_all:
      try:
          b_o = zo.read(p)
          b_t = zt.read(p)
      except KeyError:
          continue
      if b_o != b_t:
          sha_o = hashlib.sha1(b_o).hexdigest()[:10]
          sha_t = hashlib.sha1(b_t).hexdigest()[:10]
          changed.append(...)
          if not (p.lower().endswith('.html') or p.lower().endswith('.xhtml')) and p != 'mimetype':
              non_html_changed.append(p)
          else:
              changed_html_paths.append(p)
              changed_blobs_t[p] = b_t
  \<close>
\<close>

fun content_diff_loop :: "pylib \<Rightarrow> zipfile \<Rightarrow> zipfile \<Rightarrow> string list \<Rightarrow> diff_state \<Rightarrow> diff_state" where
  "content_diff_loop lib zo zt [] st = st"
| "content_diff_loop lib zo zt (p # ps) st =
     (case zip_read zo p of
        Inl e \<Rightarrow> content_diff_loop lib zo zt ps st
      | Inr b_o \<Rightarrow>
          (case zip_read zt p of
             Inl e \<Rightarrow> content_diff_loop lib zo zt ps st
           | Inr b_t \<Rightarrow>
               if b_o \<noteq> b_t then
                 (let sha_o = take 10 (sha1_hexdigest lib b_o);
                      sha_t = take 10 (sha1_hexdigest lib b_t);
                      st1 = st \<lparr> changed := changed st
                                   @ [Changed_file p (length b_o) (length b_t) sha_o sha_t] \<rparr>
                  in if \<not> (endswith (lower p) ''.html'' \<or> endswith (lower p) ''.xhtml'')
                          \<and> p \<noteq> ''mimetype''
                     then content_diff_loop lib zo zt ps
                            (st1 \<lparr> non_html_changed := non_html_changed st1 @ [p] \<rparr>)
                     else content_diff_loop lib zo zt ps
                            (st1 \<lparr> changed_html_paths := changed_html_paths st1 @ [p],
                                   changed_blobs_t := (changed_blobs_t st1)(p \<mapsto> b_t) \<rparr>))
               else content_diff_loop lib zo zt ps st))"

definition content_diff :: "pylib \<Rightarrow> zipfile \<Rightarrow> zipfile \<Rightarrow> string list \<Rightarrow> string list \<Rightarrow> diff_state" where
  "content_diff lib zo zt names_o names_t =
     content_diff_loop lib zo zt (sorted_set (set names_o \<inter> set names_t))
       \<lparr> changed = [], non_html_changed = [], changed_html_paths = [],
         changed_blobs_t = Map.empty \<rparr>"

section \<open>Markup Validator\<close>

definition is_digit :: "char \<Rightarrow> bool" where
  "is_digit c = (let n = (of_char c :: nat) in 48 \<le> n \<and> n \<le> 57)"

definition is_ascii_alpha :: "char \<Rightarrow> bool" where
  "is_ascii_alpha c = (let n = (of_char c :: nat) in (65 \<le> n \<and> n \<le> 90) \<or> (97 \<le> n \<and> n \<le> 122))"

definition is_ascii_alnum :: "char \<Rightarrow> bool" where
  "is_ascii_alnum c = (is_ascii_alpha c \<or> is_digit c)"

definition is_hex_digit :: "char \<Rightarrow> bool" where
  "is_hex_digit c = (let n = (of_char c :: nat)
                     in (48 \<le> n \<and> n \<le> 57) \<or> (65 \<le> n \<and> n \<le> 70) \<or> (97 \<le> n \<and> n \<le> 102))"

text \<open>The class \<^verbatim>\<open>\w\<close> of \<^verbatim>\<open>re\<close> on the code points below 256.\<close>

definition is_word_char :: "char \<Rightarrow> bool" where
  "is_word_char c =
     (let n = (of_char c :: nat)
      in is_ascii_alnum c \<or> n = 95 \<or> n = 170 \<or> n = 178 \<or> n = 179 \<or> n = 181 \<or> n = 185 \<or> n = 186
         \<or> (188 \<le> n \<and> n \<le> 190) \<or> (192 \<le> n \<and> n \<le> 214) \<or> (216 \<le> n \<and> n \<le> 246) \<or> 248 \<le> n)"

text \<open>A greedy run \<^verbatim>\<open>[class]{k,}\<close> followed by \<^verbatim>\<open>;\<close>, which is not in the class.\<close>

definition run_then_semicolon :: "(char \<Rightarrow> bool) \<Rightarrow> nat \<Rightarrow> string \<Rightarrow> bool" where
  "run_then_semicolon cls k s =
     (k \<le> length (takeWhile cls s) \<and> take 1 (dropWhile cls s) = '';'')"

text \<open>The lookahead \<^verbatim>\<open>#\d+;|#x[0-9A-Fa-f]+;|[A-Za-z][A-Za-z0-9]+;\<close> at the text after an
  ampersand.\<close>

definition entity_ahead :: "string \<Rightarrow> bool" where
  "entity_ahead s =
     (case s of
        [] \<Rightarrow> False
      | c # rest \<Rightarrow>
          if c = CHR ''#''
          then run_then_semicolon is_digit 1 rest
               \<or> (case rest of
                     [] \<Rightarrow> False
                   | x # h \<Rightarrow> x = CHR ''x'' \<and> run_then_semicolon is_hex_digit 1 h)
          else is_ascii_alpha c \<and> run_then_semicolon is_ascii_alnum 2 s)"

text \<open>\<^verbatim>\<open>re.findall(r'&(?!...)', text)\<close>: one match for each ampersand not followed by a
  character reference.\<close>

fun bad_amp :: "string \<Rightarrow> string list" where
  "bad_amp [] = []"
| "bad_amp (c # cs) =
     (if c = CHR ''&'' \<and> \<not> entity_ahead cs then ''&'' # bad_amp cs else bad_amp cs)"

text \<open>
  The void-element pattern of the source, with \<^verbatim>\<open>re.IGNORECASE\<close>, tried at the head of
  \<open>s\<close>: the opening angle bracket and the tag name, a word boundary, then everything up
  to the first closing angle bracket, which must not be preceded by a slash. The class
  in the middle excludes the closing bracket, so only the first one can end the match.
\<close>

definition void_match_here :: "string \<Rightarrow> string \<Rightarrow> bool" where
  "void_match_here name s =
     (let n = Suc (length name)
      in lower (take n s) = CHR ''<'' # name \<and>
         (case drop n s of
            [] \<Rightarrow> False
          | r # rs \<Rightarrow>
              \<not> is_word_char r \<and>
              (let pre = takeWhile (\<lambda>c. c \<noteq> CHR ''>'') (r # rs);
                   post = dropWhile (\<lambda>c. c \<noteq> CHR ''>'') (r # rs)
               in post \<noteq> [] \<and> (pre = [] \<or> last pre \<noteq> CHR ''/''))))"

text \<open>\<^verbatim>\<open>re.search\<close>: the pattern matches at some position of the text.\<close>

fun search_void :: "string \<Rightarrow> string \<Rightarrow> bool" where
  "search_void name [] = False"
| "search_void name (c # cs) = (void_match_here name (c # cs) \<or> search_void name cs)"

definition is_quote :: "char \<Rightarrow> bool" where
  "is_quote c = (c = CHR 0x22 \<or> c = CHR 0x27)"

text \<open>
  The reference pattern of the source (\<^verbatim>\<open>src=\<close> or \<^verbatim>\<open>href=\<close>, a quote, one or more
  characters that are not quotes, a quote; case-insensitive), tried at the head of
  \<open>s\<close>: the captured group and the text after the match.
\<close>

definition match_ref_here :: "string \<Rightarrow> (string \<times> string) option" where
  "match_ref_here s =
     (let n = (if lower (take 4 s) = ''src='' then Some (4::nat)
               else if lower (take 5 s) = ''href='' then Some 5 else None)
      in case n of
           None \<Rightarrow> None
         | Some k \<Rightarrow>
             (case drop k s of
                [] \<Rightarrow> None
              | q # rest \<Rightarrow>
                  if is_quote q then
                    (let v = takeWhile (\<lambda>c. \<not> is_quote c) rest;
                         after = dropWhile (\<lambda>c. \<not> is_quote c) rest
                     in if v \<noteq> [] \<and> after \<noteq> [] then Some (v, tl after) else None)
                  else None))"

text \<open>
  \<^verbatim>\<open>re.finditer\<close>: the matches from left to right, the search going on after the end of
  each match; the list holds \<^verbatim>\<open>m.group(1)\<close> of each.
\<close>

function find_refs :: "string \<Rightarrow> string list" where
  "find_refs [] = []"
| "find_refs (c # cs) =
     (case match_ref_here (c # cs) of
        None \<Rightarrow> find_refs cs
      | Some (v, rest) \<Rightarrow> v # find_refs rest)"
  by pat_completeness auto
termination
proof (relation "measure length")
  show "wf (measure length)" by simp
next
  fix c :: char and cs :: string
  show "(cs, c # cs) \<in> measure length" by simp
next
  fix c :: char and cs :: string and x2 :: "string \<times> string" and v rest :: string
  assume m: "match_ref_here (c # cs) = Some x2" and x2: "(v, rest) = x2"
  have key: "\<And>k q r. drop k cs = q # r \<Longrightarrow>
      length (tl (dropWhile (\<lambda>c. \<not> is_quote c) r)) < Suc (length cs)"
  proof -
    fix k q r assume d: "drop k cs = q # r"
    have "length (drop k cs) \<le> length cs" by simp
    with d have "length r < length cs" by simp
    moreover have "length (tl (dropWhile (\<lambda>c. \<not> is_quote c) r)) \<le> length r"
      using length_dropWhile_le [of "\<lambda>c. \<not> is_quote c" r] by simp
    ultimately show "length (tl (dropWhile (\<lambda>c. \<not> is_quote c) r)) < Suc (length cs)"
      by simp
  qed
  from m x2 have "length rest < length (c # cs)"
    unfolding match_ref_here_def Let_def
    by (auto split: option.splits list.splits if_splits intro: key)
  then show "(rest, c # cs) \<in> measure length" by simp
qed

text \<open>The scheme test \<^verbatim>\<open>re.match(r'^[a-zA-Z][a-zA-Z0-9+.-]*:', href)\<close>.\<close>

definition is_scheme_char :: "char \<Rightarrow> bool" where
  "is_scheme_char c = (is_ascii_alnum c \<or> c = CHR ''+'' \<or> c = CHR ''.'' \<or> c = CHR ''-'')"

definition has_scheme :: "string \<Rightarrow> bool" where
  "has_scheme href =
     (case href of
        [] \<Rightarrow> False
      | c # cs \<Rightarrow> is_ascii_alpha c \<and> take 1 (dropWhile is_scheme_char cs) = '':'')"

text \<open>
  The resource loop of \<^verbatim>\<open>find_html_issues\<close>:
  \<^verbatim>\<open>
  for m in re.finditer(...):
      href = m.group(1).strip()
      if not href or href.startswith('#') or re.match(..., href):
          continue
      full = normalize_path(os.path.join(base_dir, href))
      if full not in zip_names:
          issues.append(f'missing referenced resource: {full}')
  \<close>
\<close>

definition skipped_ref :: "string \<Rightarrow> bool" where
  "skipped_ref href = (href = [] \<or> startswith href ''#'' \<or> has_scheme href)"

definition resolve_ref :: "string \<Rightarrow> string \<Rightarrow> string" where
  "resolve_ref base_dir href = normalize_path (path_join base_dir href)"

definition missing_resource :: "string \<Rightarrow> string" where
  "missing_resource full = ''missing referenced resource: '' @ full"

fun ref_loop :: "string \<Rightarrow> string set \<Rightarrow> string list \<Rightarrow> string list" where
  "ref_loop base_dir zip_names [] = []"
| "ref_loop base_dir zip_names (m # ms) =
     (let href = strip m
      in if skipped_ref href then ref_loop base_dir zip_names ms
         else
           let full = resolve_ref base_dir href
           in if full \<notin> zip_names
              then missing_resource full # ref_loop base_dir zip_names ms
              else ref_loop base_dir zip_names ms)"

definition ref_issues :: "string \<Rightarrow> string \<Rightarrow> string set \<Rightarrow> string list" where
  "ref_issues path text zip_names =
     ref_loop (normalize_path (dirname path)) zip_names (find_refs text)"
definition xmlns_issues :: "bool \<Rightarrow> string \<Rightarrow> string list" where
  "xmlns_issues is_xhtml lower_text =
     (if is_xhtml \<and> contains ''<html'' lower_text
           \<and> \<not> contains ''xmlns='' (takeWhile (\<lambda>c. c \<noteq> CHR ''>'') lower_text)
      then [''missing xmlns on <html>''] else [])"

definition amp_issues :: "string \<Rightarrow> string list" where
  "amp_issues text = (if bad_amp text \<noteq> [] then [''unescaped & found''] else [])"

definition void_issues :: "bool \<Rightarrow> string \<Rightarrow> string list" where
  "void_issues is_xhtml text =
     (if is_xhtml
      then (if search_void ''img'' text then [''xhtml <img> not self-closed''] else [])
           @ (if search_void ''br'' text then [''xhtml <br> not self-closed''] else [])
           @ (if search_void ''hr'' text then [''xhtml <hr> not self-closed''] else [])
      else [])"

definition toc_epub_type :: string where
  "toc_epub_type = ''epub:type='' @ [CHR 0x22] @ ''toc'' @ [CHR 0x22]"

definition toc_role :: string where
  "toc_role = ''role='' @ [CHR 0x22] @ ''doc-toc'' @ [CHR 0x22]"

definition toc_message :: string where
  "toc_message = ''toc.xhtml: missing <nav '' @ toc_epub_type @ ''> or '' @ toc_role"

text \<open>
  \<^verbatim>\<open>
  if os.path.basename(path).lower().startswith('toc'):
      if 'nav' not in lower or ('epub:type="toc"' not in lower and 'role="doc-toc"' not in lower):
          issues.append('toc.xhtml: missing <nav epub:type="toc"> or role="doc-toc"')
  \<close>
\<close>

definition toc_issues :: "string \<Rightarrow> string \<Rightarrow> string list" where
  "toc_issues path lower_text =
     (if startswith (lower (basename path)) ''toc''
      then (if \<not> contains ''nav'' lower_text
               \<or> (\<not> contains toc_epub_type lower_text \<and> \<not> contains toc_role lower_text)
            then [toc_message] else [])
      else [])"

definition find_html_issues :: "string \<Rightarrow> string \<Rightarrow> bool \<Rightarrow> string set \<Rightarrow> string list" where
  "find_html_issues path text is_xhtml zip_names =
     (let lower_text = lower text
      in xmlns_issues is_xhtml lower_text
         @ amp_issues text
         @ void_issues is_xhtml text
         @ ref_issues path text zip_names
         @ toc_issues path lower_text)"

text \<open>
  \<^verbatim>\<open>
  for p in changed_html_paths[:20]:
      text_t = changed_blobs_t[p].decode('utf-8', errors='replace')
      is_xhtml = p.lower().endswith('.xhtml')
      html_issues.extend([f'{p}: {msg}' for msg in find_html_issues(p, text_t, is_xhtml, zip_names_set)])
  \<close>
\<close>

fun html_issues_loop :: "pylib \<Rightarrow> (string \<rightharpoonup> bytes) \<Rightarrow> string set \<Rightarrow> string list \<Rightarrow> error + string list" where
  "html_issues_loop lib blobs zip_names [] = Inr []"
| "html_issues_loop lib blobs zip_names (p # ps) =
     (case blobs p of
        None \<Rightarrow> Inl KeyError
      | Some b \<Rightarrow>
          (let text_t = decode lib Utf8_replace b;
               is_xhtml = endswith (lower p) ''.xhtml'';
               found = map (\<lambda>msg. p @ '': '' @ msg) (find_html_issues p text_t is_xhtml zip_names)
           in case html_issues_loop lib blobs zip_names ps of
                Inl e \<Rightarrow> Inl e
              | Inr others \<Rightarrow> Inr (found @ others)))"

section \<open>Report Aggregator\<close>

text \<open>
  \<^verbatim>\<open>
  mt_diffs = sum(1 for p in (set(opf_o['manifest_paths']) & set(opf_t['manifest_paths']))
                 if opf_o['manifest_map'].get(p,'') != opf_t['manifest_map'].get(p,''))
  \<close>
\<close>

definition mt_diffs_of :: "opf \<Rightarrow> opf \<Rightarrow> nat" where
  "mt_diffs_of opf_o opf_t =
     length (filter (\<lambda>p. media_type_of opf_o p \<noteq> media_type_of opf_t p)
               (sorted_set (set (manifest_paths opf_o) \<inter> set (manifest_paths opf_t))))"

text \<open>
  The condition of the closing hint, evaluated left to right as Python does:
  \<^verbatim>\<open>
  not (missing or extra) and (opf_o_rel == opf_t_rel)
    and (not opf_o or (not man_missing and not man_extra and diff_idx == -1
                       and len(opf_o['spine_paths']) == len(opf_t['spine_paths']))
                   and (mt_diffs if opf_o and opf_t else 0) == 0)
    and not non_html_changed
  \<close>
  Reading \<^verbatim>\<open>man_missing\<close> when the comparison block was skipped raises
  \<^verbatim>\<open>UnboundLocalError\<close>; subscripting \<^verbatim>\<open>opf_t\<close> when it is \<^verbatim>\<open>None\<close> raises
  \<^verbatim>\<open>TypeError\<close>.
\<close>

definition hint_condition ::
  "string list \<Rightarrow> string list \<Rightarrow> string option \<Rightarrow> string option \<Rightarrow> opf option \<Rightarrow> opf option
     \<Rightarrow> opf_cmp option \<Rightarrow> string list \<Rightarrow> error + bool" where
  "hint_condition missing extra opf_o_rel opf_t_rel opf_o opf_t cmp non_html =
     (if \<not> (missing = [] \<and> extra = []) then Inr False
      else if opf_o_rel \<noteq> opf_t_rel then Inr False
      else
        case opf_o of
          None \<Rightarrow> Inr (non_html = [])
        | Some oo \<Rightarrow>
            (case cmp of
               None \<Rightarrow> Inl UnboundLocalError
             | Some c \<Rightarrow>
                 if \<not> (man_missing c = [] \<and> man_extra c = [] \<and> diff_idx c = - 1) then Inr False
                 else
                   (case opf_t of
                      None \<Rightarrow> Inl TypeError
                    | Some tt \<Rightarrow>
                        if length (spine_paths oo) \<noteq> length (spine_paths tt) then Inr False
                        else if mt_diffs_of oo tt \<noteq> 0 then Inr False
                        else Inr (non_html = []))))"
text \<open>
  The summary section. Inside \<^verbatim>\<open>if opf_o and opf_t:\<close> the variables of the comparison
  block are read; they are bound there, because that block ran under the same condition.
\<close>

definition summary_opf_lines :: "opf option \<Rightarrow> opf option \<Rightarrow> opf_cmp option \<Rightarrow> error + report_line list" where
  "summary_opf_lines opf_o opf_t cmp =
     (case (opf_o, opf_t) of
        (Some oo, Some tt) \<Rightarrow>
          (case cmp of
             None \<Rightarrow> Inl UnboundLocalError
           | Some c \<Rightarrow>
               Inr ((if man_missing c \<noteq> [] \<or> man_extra c \<noteq> [] then [Summary_manifest_differs] else [])
                    @ (if mt_diffs_of oo tt \<noteq> 0 then [Summary_media_type_differs (mt_diffs_of oo tt)] else [])
                    @ (if diff_idx c \<noteq> - 1 \<or> length (spine_paths oo) \<noteq> length (spine_paths tt)
                       then [Summary_spine_differs] else [])))
      | _ \<Rightarrow> Inr [])"

definition summary ::
  "string list \<Rightarrow> string list \<Rightarrow> string option \<Rightarrow> string option \<Rightarrow> opf option \<Rightarrow> opf option
     \<Rightarrow> opf_cmp option \<Rightarrow> string list \<Rightarrow> string list \<Rightarrow> error + report_line list" where
  "summary missing extra opf_o_rel opf_t_rel opf_o opf_t cmp non_html html_issues =
     (case summary_opf_lines opf_o opf_t cmp of
        Inl e \<Rightarrow> Inl e
      | Inr opf_lines \<Rightarrow>
          (case hint_condition missing extra opf_o_rel opf_t_rel opf_o opf_t cmp non_html of
             Inl e \<Rightarrow> Inl e
           | Inr hint \<Rightarrow>
               Inr ([Summary_banner]
                    @ (if missing \<noteq> [] \<or> extra \<noteq> [] then [Summary_files_differ] else [])
                    @ (if opf_o_rel \<noteq> opf_t_rel then [Summary_opf_path_differs] else [])
                    @ opf_lines
                    @ (if non_html \<noteq> [] then [Summary_non_html_changed (take 10 non_html)] else [])
                    @ (if html_issues \<noteq> [] then [Summary_html_issues] else [])
                    @ (if hint then [Summary_hint] else []))))"

text \<open>
  \<^verbatim>\<open>compare_epub\<close>, on the two archives once opened. An archive that cannot be opened
  is the fatal case and has no counterpart here.
\<close>

definition compare_epub :: "pylib \<Rightarrow> string \<Rightarrow> string \<Rightarrow> zipfile \<Rightarrow> zipfile \<Rightarrow> error + report_line list" where
  "compare_epub lib orig_path trans_path zo zt =
     (let names_o = zip_namelist_files zo;
          names_t = zip_namelist_files zt;
          set_o = set names_o;
          set_t = set names_t;
          missing = missing_files names_o names_t;
          extra = extra_files names_o names_t;
          head_lines = [Orig_path orig_path, Tran_path trans_path, File_counts_banner,
                        Orig_files (length names_o), Tran_files (length names_t)]
                       @ file_set_lines names_o names_t
      in case mimetype_checks lib zo names_o zt names_t of
           Inl e \<Rightarrow> Inl e
         | Inr mimetype_lines \<Rightarrow>
             (case extract_opf lib zo of
                Inl e \<Rightarrow> Inl e
              | Inr (c_o, opf_o_rel, opf_o) \<Rightarrow>
                  (case extract_opf lib zt of
                     Inl e \<Rightarrow> Inl e
                   | Inr (c_t, opf_t_rel, opf_t) \<Rightarrow>
                       (let opf_lines = [Opf_paths_banner, Orig_opf opf_o_rel, Tran_opf opf_t_rel]
                                        @ (if opf_o_rel \<noteq> opf_t_rel then [Opf_path_differs] else []);
                            compared = (case (opf_o, opf_t) of
                                          (Some oo, Some tt) \<Rightarrow>
                                            (let r = opf_compare lib zt set_o set_t oo tt
                                             in (fst r, Some (snd r)))
                                        | _ \<Rightarrow> ([], None));
                            st = content_diff lib zo zt names_o names_t;
                            content_lines = Content_diff_banner
                                            # (if changed st \<noteq> [] then take 50 (changed st)
                                               else [No_content_diffs])
                        in case html_issues_loop lib (changed_blobs_t st) set_t
                                  (take 20 (changed_html_paths st)) of
                             Inl e \<Rightarrow> Inl e
                           | Inr html_issues \<Rightarrow>
                               (case summary missing extra opf_o_rel opf_t_rel opf_o opf_t
                                       (snd compared) (non_html_changed st) html_issues of
                                  Inl e \<Rightarrow> Inl e
                                | Inr summary_lines \<Rightarrow>
                                    Inr (head_lines @ mimetype_lines @ opf_lines @ fst compared
                                         @ content_lines
                                         @ (if html_issues \<noteq> []
                                            then Html_issues_banner # map Html_issue (take 50 html_issues)
                                            else [])
                                         @ summary_lines))))))"
section \<open>Example inputs\<close>

text \<open>
  A library instance for the concrete evaluations below: a parser that rejects every
  text, the identity for decoding, and an empty digest.
\<close>

definition example_lib :: pylib where
  "example_lib = \<lparr> fromstring = (\<lambda>t. None), decode_utf8 = (\<lambda>b. b), sha1_hexdigest = (\<lambda>b. []) \<rparr>"

definition entry :: "string \<Rightarrow> nat \<Rightarrow> bytes \<Rightarrow> zip_entry" where
  "entry n c d = \<lparr> filename = n, compress_type = c, file_data = d \<rparr>"

text \<open>The archives differ on the content of a path: both hold it, with unequal bytes.\<close>

definition content_differs :: "zipfile \<Rightarrow> zipfile \<Rightarrow> string \<Rightarrow> bool" where
  "content_differs zo zt p =
     (case zip_read zo p of
        Inl e \<Rightarrow> False
      | Inr b_o \<Rightarrow> (case zip_read zt p of Inl e \<Rightarrow> False | Inr b_t \<Rightarrow> b_o \<noteq> b_t))"


text \<open>A parsed package document in the OPF namespace: two manifest items and a spine.\<close>

definition opf_ns :: string where
  "opf_ns = ''http://www.idpf.org/2007/opf''"

definition example_package :: element where
  "example_package =
     Element (qualify opf_ns ''package'') []
       [Element (qualify opf_ns ''manifest'') []
          [Element (qualify opf_ns ''item'')
             [(''id'', ''c1''), (''href'', ''text/ch1.xhtml''), (''media-type'', ''application/xhtml+xml'')] [],
           Element (qualify opf_ns ''item'')
             [(''id'', ''css''), (''href'', ''style.css''), (''media-type'', ''text/css'')] []],
        Element (qualify opf_ns ''spine'') []
          [Element (qualify opf_ns ''itemref'') [(''idref'', ''c1'')] [],
           Element (qualify opf_ns ''itemref'') [(''idref'', ''gone'')] []]]"

text \<open>
  A container descriptor and a package document whose root element is in no namespace,
  with a library instance that parses these two texts as \<^verbatim>\<open>ET.fromstring\<close> does.
\<close>

definition container_text :: string where
  "container_text = ''<container><rootfiles><rootfile full-path='' @ [CHR 0x22] @ ''content.opf''
                     @ [CHR 0x22] @ ''/></rootfiles></container>''"

definition container_doc :: element where
  "container_doc =
     Element ''container'' []
       [Element ''rootfiles'' [] [Element ''rootfile'' [(''full-path'', ''content.opf'')] []]]"

definition bare_lib :: pylib where
  "bare_lib =
     \<lparr> fromstring = (\<lambda>t. if t = container_text then Some container_doc
                          else if t = ''<package/>'' then Some (Element ''package'' [] [])
                          else None),
       decode_utf8 = (\<lambda>b. b),
       sha1_hexdigest = (\<lambda>b. []) \<rparr>"

definition bare_epub :: zipfile where
  "bare_epub =
     [entry ''mimetype'' 0 ''application/epub+zip'',
      entry ''META-INF/container.xml'' 8 container_text,
      entry ''content.opf'' 8 ''<package/>'']"

text \<open>A chapter with an image reference, a fragment link and a link with a scheme.\<close>

definition chapter_text :: string where
  "chapter_text =
     ''<html><img src='' @ [CHR 0x22] @ ''img/cover.png'' @ [CHR 0x22] @ ''/>''
     @ ''<a href='' @ [CHR 0x22] @ ''#top'' @ [CHR 0x22] @ ''>up</a>''
     @ ''<a HREF='' @ [CHR 0x27] @ ''https://example.org/'' @ [CHR 0x27] @ ''>out</a></html>''"

text \<open>
  The text of \<open>example_package\<close>, a library instance that parses it and the container
  descriptor, and an archive whose manifest refers to files the archive does not hold.
\<close>

definition dq :: string where
  "dq = [CHR 0x22]"

definition package_text :: string where
  "package_text =
     ''<package xmlns='' @ dq @ opf_ns @ dq @ ''><manifest>''
     @ ''<item id='' @ dq @ ''c1'' @ dq @ '' href='' @ dq @ ''text/ch1.xhtml'' @ dq
     @ '' media-type='' @ dq @ ''application/xhtml+xml'' @ dq @ ''/>''
     @ ''<item id='' @ dq @ ''css'' @ dq @ '' href='' @ dq @ ''style.css'' @ dq
     @ '' media-type='' @ dq @ ''text/css'' @ dq @ ''/>''
     @ ''</manifest><spine><itemref idref='' @ dq @ ''c1'' @ dq @ ''/><itemref idref='' @ dq
     @ ''gone'' @ dq @ ''/></spine></package>''"

definition epub_lib :: pylib where
  "epub_lib =
     \<lparr> fromstring = (\<lambda>t. if t = container_text then Some container_doc
                          else if t = package_text then Some example_package
                          else None),
       decode_utf8 = (\<lambda>b. b),
       sha1_hexdigest = (\<lambda>b. []) \<rparr>"

definition dangling_epub :: zipfile where
  "dangling_epub =
     [entry ''mimetype'' 0 ''application/epub+zip'',
      entry ''META-INF/container.xml'' 8 container_text,
      entry ''content.opf'' 8 package_text]"

text \<open>
  A path component without slash, backslash or whitespace that is neither empty nor
  one of the special names \<^verbatim>\<open>.\<close> and \<^verbatim>\<open>..\<close>.
\<close>

definition plain_comp :: "string \<Rightarrow> bool" where
  "plain_comp c =
     (c \<noteq> [] \<and> c \<noteq> ''.'' \<and> c \<noteq> ''..''
      \<and> (\<forall>ch \<in> set c. ch \<noteq> CHR ''/'' \<and> ch \<noteq> backslash \<and> \<not> isspace ch))"

text \<open>Markup with a link whose value holds an apostrophe, a link written with spaces
  around the equals sign, and an image reference that climbs one directory.\<close>

definition apostrophe_name :: string where
  "apostrophe_name = ''it'' @ [CHR 0x27] @ ''s.html''"

definition apostrophe_link :: string where
  "apostrophe_link = ''<a href='' @ [CHR 0x22] @ apostrophe_name @ [CHR 0x22] @ ''>x</a>''"

definition spaced_link :: string where
  "spaced_link = ''<a href = '' @ [CHR 0x22] @ ''gone.xhtml'' @ [CHR 0x22] @ ''>x</a>''"

definition parent_link :: string where
  "parent_link = ''<img src='' @ [CHR 0x22] @ '' ../img/cover.png '' @ [CHR 0x22] @ ''/>''"

section \<open>File-set diff\<close>

text \<open>
  Claim C8. The file-set diff is symmetric under swapping the two archives: the list
  reported as missing in the translated archive for the pair (A, B) is the list reported
  as extra for the pair (B, A), and the other way round; so are the lines that display
  them.
\<close>

theorem file_set_diff_symmetric:
  "missing_files names_a names_b = extra_files names_b names_a \<and>
   extra_files names_a names_b = missing_files names_b names_a \<and>
   name_list 50 (missing_files names_a names_b) = name_list 50 (extra_files names_b names_a) \<and>
   name_list 50 (extra_files names_a names_b) = name_list 50 (missing_files names_b names_a)"
  by (simp add: missing_files_def extra_files_def)

section \<open>Reading-order comparison\<close>

lemma spine_diff_from_range:
  "spine_diff_from a b i = - 1 \<or>
   (\<exists>k. spine_diff_from a b i = int k \<and> i \<le> k \<and> k < min (length a) (length b))"
proof (induction a b i rule: spine_diff_from.induct)
  case (1 a b i)
  show ?case
  proof (cases "i < min (length a) (length b)")
    case False
    then show ?thesis by (auto simp: spine_diff_from.simps [of a b i])
  next
    case True
    show ?thesis
    proof (cases "a ! i \<noteq> b ! i")
      case True
      with \<open>i < min (length a) (length b)\<close> show ?thesis
        by (auto simp: spine_diff_from.simps [of a b i])
    next
      case False
      with True 1 have "spine_diff_from a b (Suc i) = - 1 \<or>
          (\<exists>k. spine_diff_from a b (Suc i) = int k \<and> Suc i \<le> k \<and> k < min (length a) (length b))"
        by simp
      moreover from True False have "spine_diff_from a b i = spine_diff_from a b (Suc i)"
        by (auto simp: spine_diff_from.simps [of a b i])
      ultimately show ?thesis by auto
    qed
  qed
qed

lemma spine_diff_from_none:
  "spine_diff_from a b i = - 1 \<longleftrightarrow>
   (\<forall>j. i \<le> j \<and> j < min (length a) (length b) \<longrightarrow> a ! j = b ! j)"
proof (induction a b i rule: spine_diff_from.induct)
  case (1 a b i)
  show ?case
  proof (cases "i < min (length a) (length b)")
    case False
    then show ?thesis by (auto simp: spine_diff_from.simps [of a b i])
  next
    case True
    show ?thesis
    proof (cases "a ! i \<noteq> b ! i")
      case ne: True
      with True have "spine_diff_from a b i = int i"
        by (auto simp: spine_diff_from.simps [of a b i])
      with ne True show ?thesis by auto
    next
      case False
      with True 1 have IH: "spine_diff_from a b (Suc i) = - 1 \<longleftrightarrow>
          (\<forall>j. Suc i \<le> j \<and> j < min (length a) (length b) \<longrightarrow> a ! j = b ! j)"
        by simp
      from True False have eq: "spine_diff_from a b i = spine_diff_from a b (Suc i)"
        by (auto simp: spine_diff_from.simps [of a b i])
      have "(\<forall>j. i \<le> j \<and> j < min (length a) (length b) \<longrightarrow> a ! j = b ! j) \<longleftrightarrow>
            (\<forall>j. Suc i \<le> j \<and> j < min (length a) (length b) \<longrightarrow> a ! j = b ! j)"
        using False by (metis Suc_leI le_neq_implies_less Suc_leD)
      with IH eq show ?thesis by simp
    qed
  qed
qed

lemma spine_diff_from_first:
  "spine_diff_from a b i = int k \<Longrightarrow>
     a ! k \<noteq> b ! k \<and> (\<forall>j. i \<le> j \<and> j < k \<longrightarrow> a ! j = b ! j)"
proof (induction a b i rule: spine_diff_from.induct)
  case (1 a b i)
  show ?case
  proof (cases "i < min (length a) (length b)")
    case False
    with 1(2) show ?thesis by (auto simp: spine_diff_from.simps [of a b i])
  next
    case True
    show ?thesis
    proof (cases "a ! i \<noteq> b ! i")
      case ne: True
      with True 1(2) have "k = i"
        by (auto simp: spine_diff_from.simps [of a b i])
      with ne show ?thesis by auto
    next
      case False
      from True False 1(2) have eq: "spine_diff_from a b (Suc i) = int k"
        by (auto simp: spine_diff_from.simps [of a b i])
      with True False 1(1)
      have IH: "a ! k \<noteq> b ! k \<and> (\<forall>j. Suc i \<le> j \<and> j < k \<longrightarrow> a ! j = b ! j)"
        by simp
      show ?thesis
      proof (intro conjI allI impI)
        show "a ! k \<noteq> b ! k" using IH by simp
      next
        fix j assume "i \<le> j \<and> j < k"
        then show "a ! j = b ! j"
          using IH False by (cases "j = i") auto
      qed
    qed
  qed
qed

lemma prefix_iff_nth:
  "prefix a b \<or> prefix b a \<longleftrightarrow> (\<forall>j. j < min (length a) (length b) \<longrightarrow> a ! j = b ! j)"
proof
  assume "prefix a b \<or> prefix b a"
  then show "\<forall>j. j < min (length a) (length b) \<longrightarrow> a ! j = b ! j"
    by (auto simp: prefix_def nth_append)
next
  assume H: "\<forall>j. j < min (length a) (length b) \<longrightarrow> a ! j = b ! j"
  show "prefix a b \<or> prefix b a"
  proof (cases "length a \<le> length b")
    case True
    with H have "a = take (length a) b"
      by (intro nth_equalityI) auto
    then have "prefix a b" by (metis take_is_prefix)
    then show ?thesis ..
  next
    case False
    with H have "b = take (length b) a"
      by (intro nth_equalityI) auto
    then have "prefix b a" by (metis take_is_prefix)
    then show ?thesis ..
  qed
qed

text \<open>
  Claim C5. The reading-order divergence index is \<open>-1\<close> exactly when one sequence is a
  (non-strict) prefix of the other, which includes equal sequences; otherwise it is the
  smallest position, below the length of the shorter sequence, at which the two sequences
  differ.
\<close>

theorem spine_diff_idx_first_divergence:
  "(spine_diff_idx spine_o spine_t = - 1 \<longleftrightarrow> prefix spine_o spine_t \<or> prefix spine_t spine_o) \<and>
   (spine_diff_idx spine_o spine_t \<noteq> - 1 \<longrightarrow>
      (\<exists>i. spine_diff_idx spine_o spine_t = int i \<and>
           i < min (length spine_o) (length spine_t) \<and>
           spine_o ! i \<noteq> spine_t ! i \<and>
           (\<forall>j<i. spine_o ! j = spine_t ! j)))"
proof (intro conjI impI)
  show "spine_diff_idx spine_o spine_t = - 1 \<longleftrightarrow> prefix spine_o spine_t \<or> prefix spine_t spine_o"
    unfolding spine_diff_idx_def prefix_iff_nth spine_diff_from_none by simp
next
  assume ne: "spine_diff_idx spine_o spine_t \<noteq> - 1"
  with spine_diff_from_range [of spine_o spine_t 0]
  obtain k where k: "spine_diff_from spine_o spine_t 0 = int k"
      "k < min (length spine_o) (length spine_t)"
    unfolding spine_diff_idx_def by auto
  from spine_diff_from_first [OF k(1)]
  have "spine_o ! k \<noteq> spine_t ! k \<and> (\<forall>j<k. spine_o ! j = spine_t ! j)" by simp
  with k show "\<exists>i. spine_diff_idx spine_o spine_t = int i \<and>
           i < min (length spine_o) (length spine_t) \<and>
           spine_o ! i \<noteq> spine_t ! i \<and>
           (\<forall>j<i. spine_o ! j = spine_t ! j)"
    unfolding spine_diff_idx_def by blast
qed

text \<open>
  The theorem at two reading orders that part at position 1, and at a reading order and
  its own prefix.
\<close>

theorem spine_diff_idx_first_divergence_witness:
  "spine_diff_idx [''ch1.xhtml'', ''ch2.xhtml'', ''ch3.xhtml''] [''ch1.xhtml'', ''ch9.xhtml''] = 1 \<and>
   \<not> prefix [''ch1.xhtml'', ''ch2.xhtml'', ''ch3.xhtml''] [''ch1.xhtml'', ''ch9.xhtml''] \<and>
   \<not> prefix [''ch1.xhtml'', ''ch9.xhtml''] [''ch1.xhtml'', ''ch2.xhtml'', ''ch3.xhtml''] \<and>
   spine_diff_idx [''ch1.xhtml'', ''ch2.xhtml''] [''ch1.xhtml''] = - 1"
proof -
  have e1: "spine_diff_idx [''ch1.xhtml'', ''ch2.xhtml'', ''ch3.xhtml''] [''ch1.xhtml'', ''ch9.xhtml''] = 1"
    by (simp add: spine_diff_idx_def spine_diff_from.simps)
  have p: "prefix [''ch1.xhtml''] [''ch1.xhtml'', ''ch2.xhtml'']" by simp
  from e1 p
    spine_diff_idx_first_divergence
      [of "[''ch1.xhtml'', ''ch2.xhtml'', ''ch3.xhtml'']" "[''ch1.xhtml'', ''ch9.xhtml'']"]
    spine_diff_idx_first_divergence [of "[''ch1.xhtml'', ''ch2.xhtml'']" "[''ch1.xhtml'']"]
  show ?thesis by simp
qed
section \<open>Package Parser: the reading order stays within the manifest\<close>

lemma manifest_loop_ids_recorded:
  "ran (ms_id_to_href st) \<subseteq> set (ms_paths st) \<Longrightarrow>
   ran (ms_id_to_href (manifest_loop base_dir items st))
     \<subseteq> set (ms_paths (manifest_loop base_dir items st))"
proof (induction items arbitrary: st)
  case Nil
  then show ?case by simp
next
  case (Cons item items)
  show ?case
  proof (cases "get_or_empty item ''href'' = []")
    case True
    with Cons show ?thesis by simp
  next
    case False
    let ?full = "join_href base_dir (get_or_empty item ''href'')"
    let ?st' = "\<lparr> ms_paths = ms_paths st @ [?full],
                  ms_map = (if get_or_empty item ''media-type'' \<noteq> []
                            then (ms_map st)(?full \<mapsto> get_or_empty item ''media-type'')
                            else ms_map st),
                  ms_id_to_href = (if get_or_empty item ''id'' \<noteq> []
                                   then (ms_id_to_href st)(get_or_empty item ''id'' \<mapsto> ?full)
                                   else ms_id_to_href st) \<rparr>"
    from Cons.prems have "ran (ms_id_to_href ?st') \<subseteq> set (ms_paths ?st')"
      by (auto simp: ran_def split: if_splits)
    from Cons.IH [OF this] False show ?thesis
      by (simp add: Let_def)
  qed
qed

lemma spine_loop_from_ids:
  "set (spine_loop id_to_href its spine) \<subseteq> set spine \<union> ran id_to_href"
proof (induction its arbitrary: spine)
  case Nil
  then show ?case by simp
next
  case (Cons it its)
  show ?case
  proof (cases "id_to_href (get_or_empty it ''idref'')")
    case None
    with Cons.IH [of spine] show ?thesis by simp
  next
    case (Some full)
    then have "full \<in> ran id_to_href" by (auto simp: ran_def)
    with Some Cons.IH [of spine] Cons.IH [of "spine @ [full]"] show ?thesis
      by auto
  qed
qed

text \<open>
  Claim C10. Whenever the Package Parser returns, every resource path of the returned
  reading-order list also occurs in the returned manifest path list: a spine entry is
  resolved through the identifier table only, and every path in that table was appended
  to the manifest paths in the same step.
\<close>

theorem parse_opf_spine_within_manifest:
  "parse_opf lib opf_text opf_path = Inr r \<Longrightarrow> set (spine_paths r) \<subseteq> set (manifest_paths r)"
proof -
  assume ret: "parse_opf lib opf_text opf_path = Inr r"
  show ?thesis
  proof (cases "fromstring lib opf_text")
    case None
    with ret have "r = \<lparr> manifest_paths = [], spine_paths = [], manifest_map = Map.empty \<rparr>"
      by (simp add: parse_opf_def)
    then show ?thesis by simp
  next
    case (Some doc)
    let ?init = "\<lparr> ms_paths = [], ms_map = Map.empty, ms_id_to_href = Map.empty \<rparr>"
    from ret Some obtain items refs where
      r: "manifest_paths r = ms_paths (manifest_loop (normalize_path (dirname opf_path)) items ?init)"
         "spine_paths r = spine_loop
            (ms_id_to_href (manifest_loop (normalize_path (dirname opf_path)) items ?init)) refs []"
      by (auto simp: parse_opf_def Let_def split: if_splits)
    have "ran (ms_id_to_href ?init) \<subseteq> set (ms_paths ?init)" by simp
    from manifest_loop_ids_recorded [OF this]
    have "ran (ms_id_to_href (manifest_loop (normalize_path (dirname opf_path)) items ?init))
            \<subseteq> set (manifest_paths r)"
      using r(1) by simp
    moreover have "set (spine_paths r)
        \<subseteq> set [] \<union> ran (ms_id_to_href (manifest_loop (normalize_path (dirname opf_path)) items ?init))"
      unfolding r(2) by (rule spine_loop_from_ids)
    ultimately show ?thesis by auto
  qed
qed

text \<open>
  The theorem at a package document with one manifest item that the spine refers to,
  one item it does not refer to, and a spine reference to an unknown identifier.
\<close>

theorem parse_opf_spine_within_manifest_witness:
  "\<not> isl (parse_opf (example_lib \<lparr> fromstring := (\<lambda>t. Some example_package) \<rparr>) [] ''OEBPS/content.opf'') \<and>
   spine_paths (projr (parse_opf (example_lib \<lparr> fromstring := (\<lambda>t. Some example_package) \<rparr>) []
                         ''OEBPS/content.opf'')) = [''OEBPS/text/ch1.xhtml''] \<and>
   set (spine_paths (projr (parse_opf (example_lib \<lparr> fromstring := (\<lambda>t. Some example_package) \<rparr>) []
                         ''OEBPS/content.opf'')))
     \<subseteq> set (manifest_paths (projr (parse_opf (example_lib \<lparr> fromstring := (\<lambda>t. Some example_package) \<rparr>) []
                         ''OEBPS/content.opf'')))"
proof -
  let ?p = "parse_opf (example_lib \<lparr> fromstring := (\<lambda>t. Some example_package) \<rparr>) [] ''OEBPS/content.opf''"
  have a: "\<not> isl ?p" by code_simp
  have b: "spine_paths (projr ?p) = [''OEBPS/text/ch1.xhtml'']" by code_simp
  from a have "?p = Inr (projr ?p)" by (cases ?p) auto
  from parse_opf_spine_within_manifest [OF this] a b show ?thesis by simp
qed
section \<open>Archive Reader: the normalized listing\<close>

lemma set_strip_subset: "set (strip s) \<subseteq> set s"
proof -
  have "set (strip s) \<subseteq> set (rev (dropWhile isspace s))"
    unfolding strip_def by (auto dest: set_dropWhileD)
  also have "\<dots> \<subseteq> set s" by (auto dest: set_dropWhileD)
  finally show ?thesis .
qed

lemma strip_embedded: "\<exists>ws ws'. s = ws @ strip s @ ws'"
proof -
  let ?d = "dropWhile isspace s"
  have 1: "s = takeWhile isspace s @ ?d" by simp
  have "rev ?d = takeWhile isspace (rev ?d) @ dropWhile isspace (rev ?d)" by simp
  then have "?d = rev (dropWhile isspace (rev ?d)) @ rev (takeWhile isspace (rev ?d))"
    by (metis rev_append rev_rev_ident)
  then have 2: "?d = strip s @ rev (takeWhile isspace (rev ?d))"
    by (simp add: strip_def)
  from 1 2 have "s = takeWhile isspace s @ strip s @ rev (takeWhile isspace (rev ?d))"
    by metis
  then show ?thesis by blast
qed

lemma normalize_path_no_backslash: "backslash \<notin> set (normalize_path path)"
proof -
  have "backslash \<notin> set (replace_backslash (normpath path))"
    by (auto simp: replace_backslash_def backslash_def)
  with set_strip_subset [of "replace_backslash (normpath path)"]
  have "backslash \<notin> set (strip (replace_backslash (normpath path)))" by blast
  then show ?thesis
    by (auto simp: normalize_path_def Let_def dest: in_set_dropD)
qed

subsection \<open>Components of a normalized path\<close>

lemma split_sep_not_Nil: "split_sep sep s \<noteq> []"
  by (induction s) (auto split: list.splits)

lemma split_sep_append:
  "split_sep sep (a @ sep # b) = split_sep sep a @ split_sep sep b"
proof (induction a)
  case Nil
  then show ?case by simp
next
  case (Cons c a)
  obtain w ws where w: "split_sep sep a = w # ws"
    using split_sep_not_Nil [of sep a] by (cases "split_sep sep a") auto
  with Cons show ?case by simp
qed

lemma split_sep_no_sep: "sep \<notin> set s \<Longrightarrow> split_sep sep s = [s]"
  by (induction s) auto

lemma split_sep_chars: "c \<in> set (split_sep sep s) \<Longrightarrow> set c \<subseteq> set s \<and> sep \<notin> set c"
proof (induction s arbitrary: c)
  case Nil
  then show ?case by simp
next
  case (Cons x s)
  obtain w ws where w: "split_sep sep s = w # ws"
    using split_sep_not_Nil [of sep s] by (cases "split_sep sep s") auto
  have ih: "\<And>d. d \<in> set (w # ws) \<Longrightarrow> set d \<subseteq> set s \<and> sep \<notin> set d"
    using Cons.IH w by simp
  show ?case
  proof (cases "x = sep")
    case True
    with Cons.prems w ih show ?thesis by auto
  next
    case False
    with Cons.prems w have "c = x # w \<or> c \<in> set ws" by simp
    moreover from ih [of w] have "set w \<subseteq> set s \<and> sep \<notin> set w" by simp
    moreover have "\<And>d. d \<in> set ws \<Longrightarrow> set d \<subseteq> set s \<and> sep \<notin> set d"
      using ih by simp
    ultimately show ?thesis using False by auto
  qed
qed

lemma split_sep_join:
  "cs \<noteq> [] \<Longrightarrow> \<forall>c \<in> set cs. sep \<notin> set c \<Longrightarrow> split_sep sep (join [sep] cs) = cs"
proof (induction cs)
  case Nil
  then show ?case by simp
next
  case (Cons x cs)
  have x: "split_sep sep x = [x]" using Cons.prems by (simp add: split_sep_no_sep)
  show ?case
  proof (cases cs)
    case Nil
    with x show ?thesis by simp
  next
    case rest: (Cons y ys)
    with Cons.IH Cons.prems have "split_sep sep (join [sep] cs) = cs" by simp
    moreover from rest have "join [sep] (x # cs) = x @ sep # join [sep] cs" by simp
    ultimately show ?thesis
      using x split_sep_append [of sep x "join [sep] cs"] by simp
  qed
qed

lemma split_sep_replicate:
  "split_sep sep (replicate k sep @ s) = replicate k [] @ split_sep sep s"
  by (induction k) simp_all

lemma norm_comps_elems:
  "c \<in> set (norm_comps k new comps) \<Longrightarrow> c \<in> set new \<or> (c \<in> set comps \<and> c \<noteq> [] \<and> c \<noteq> ''.'')"
proof (induction comps arbitrary: new)
  case Nil
  then show ?case by simp
next
  case (Cons d comps)
  from Cons.prems Cons.IH [of new] Cons.IH [of "new @ [d]"] Cons.IH [of "butlast new"]
  show ?case
    by (auto split: if_splits dest: in_set_butlastD)
qed

text \<open>
  No component of the result of \<^verbatim>\<open>normpath\<close> is a single dot, unless the result is the
  single dot itself, and the result has no characters beyond those of its argument, the
  dot and the slash.
\<close>

lemma normpath_components:
  "normpath path = ''.'' \<or> ''.'' \<notin> set (split_sep CHR ''/'' (normpath path))"
proof (cases "path = []")
  case True
  then show ?thesis by (simp add: normpath_def)
next
  case False
  define k :: nat where "k = (if startswith path ''/''
               then (if startswith path ''//'' \<and> \<not> startswith path ''///'' then 2 else 1)
               else 0)"
  define cs where "cs = norm_comps k [] (split_sep CHR ''/'' path)"
  have good: "\<forall>c \<in> set cs. CHR ''/'' \<notin> set c \<and> c \<noteq> ''.''"
    using norm_comps_elems [of _ k "[]" "split_sep CHR ''/'' path"] split_sep_chars [of _ "CHR ''/''" path]
    unfolding cs_def by fastforce
  let ?p = "replicate k CHR ''/'' @ join ''/'' cs"
  have np: "normpath path = (if ?p = [] then ''.'' else ?p)"
    using False by (simp add: normpath_def Let_def k_def cs_def)
  show ?thesis
  proof (cases "cs = []")
    case True
    then have "split_sep CHR ''/'' ?p = replicate k [] @ [[]]"
      using split_sep_replicate [of "CHR ''/''" k "[]"] by simp
    then have "''.'' \<notin> set (split_sep CHR ''/'' ?p)" by auto
    with np show ?thesis by (cases "?p = []") simp_all
  next
    case nonempty: False
    with good have "split_sep CHR ''/'' (join ''/'' cs) = cs"
      using split_sep_join [of cs "CHR ''/''"] by simp
    then have "split_sep CHR ''/'' ?p = replicate k [] @ cs"
      using split_sep_replicate [of "CHR ''/''" k "join ''/'' cs"] by simp
    with good have "''.'' \<notin> set (split_sep CHR ''/'' ?p)" by auto
    with np show ?thesis by (cases "?p = []") simp_all
  qed
qed

lemma set_join_subset: "set (join sep cs) \<subseteq> set sep \<union> \<Union> (set ` set cs)"
  by (induction sep cs rule: join.induct) auto

lemma normpath_chars: "set (normpath path) \<subseteq> set path \<union> {CHR ''.'', CHR ''/''}"
proof (cases "path = []")
  case True
  then show ?thesis by (simp add: normpath_def)
next
  case False
  define k :: nat where "k = (if startswith path ''/''
               then (if startswith path ''//'' \<and> \<not> startswith path ''///'' then 2 else 1)
               else 0)"
  define cs where "cs = norm_comps k [] (split_sep CHR ''/'' path)"
  have "\<forall>c \<in> set cs. set c \<subseteq> set path"
    using norm_comps_elems [of _ k "[]" "split_sep CHR ''/'' path"] split_sep_chars [of _ "CHR ''/''" path]
    unfolding cs_def by fastforce
  with set_join_subset [of "''/''" cs] have "set (join ''/'' cs) \<subseteq> set path \<union> {CHR ''/''}"
    by auto
  then have "set (replicate k CHR ''/'' @ join ''/'' cs) \<subseteq> set path \<union> {CHR ''/''}"
    by auto
  moreover have "normpath path = (if replicate k CHR ''/'' @ join ''/'' cs = [] then ''.''
                                  else replicate k CHR ''/'' @ join ''/'' cs)"
    using False by (simp add: normpath_def Let_def k_def cs_def)
  ultimately show ?thesis by (auto split: if_splits)
qed

text \<open>
  For a stored name without backslashes the normalization does remove every leading
  \<^verbatim>\<open>./\<close>.
\<close>

lemma normalize_path_no_dot_slash:
  assumes "backslash \<notin> set path"
  shows "\<not> startswith (normalize_path path) ''./''"
proof
  assume bad: "startswith (normalize_path path) ''./''"
  let ?r = "normpath path"
  have "backslash \<notin> set ?r"
    using normpath_chars [of path] assms by (auto simp: backslash_def)
  then have id: "replace_backslash ?r = ?r"
    by (auto simp: replace_backslash_def intro!: map_idI)
  have "\<exists>u. strip ?r = ''././'' @ u"
  proof (cases "startswith (strip ?r) ''./''")
    case False
    with bad id show ?thesis by (simp add: normalize_path_def Let_def)
  next
    case True
    with bad id have "startswith (drop 2 (strip ?r)) ''./''"
      by (simp add: normalize_path_def Let_def)
    with True obtain t u where "strip ?r = ''./'' @ t" "drop 2 (strip ?r) = ''./'' @ u"
      by (auto simp: startswith_def prefix_def)
    then have "strip ?r = ''././'' @ u" by simp
    then show ?thesis ..
  qed
  then obtain u where u: "strip ?r = ''././'' @ u" ..
  obtain ws ws' where "?r = ws @ strip ?r @ ws'"
    using strip_embedded [of ?r] by blast
  with u have r: "?r = (ws @ ''.'') @ CHR ''/'' # (''.'' @ CHR ''/'' # (u @ ws'))" by simp
  have "split_sep CHR ''/'' ?r
          = split_sep CHR ''/'' (ws @ ''.'') @ split_sep CHR ''/'' ''.'' @ split_sep CHR ''/'' (u @ ws')"
    by (subst r) (simp only: split_sep_append)
  then have "''.'' \<in> set (split_sep CHR ''/'' ?r)" by simp
  moreover from r have "?r \<noteq> ''.''" by (cases ws) auto
  ultimately show False using normpath_components [of path] by simp
qed

text \<open>
  What holds of the listing for every archive: each listed path is the normalization of
  a stored name that does not end in a slash, no listed path contains a backslash, and
  a stored name without backslashes is listed without a leading \<^verbatim>\<open>./\<close>.
\<close>

lemma zip_namelist_files_sound:
  "p \<in> set (zip_namelist_files z) \<Longrightarrow>
     backslash \<notin> set p \<and>
     (\<exists>n \<in> set (namelist z). \<not> endswith n ''/'' \<and> p = normalize_path n \<and>
        (backslash \<notin> set n \<longrightarrow> \<not> startswith p ''./''))"
  by (auto simp: zip_namelist_files_def normalize_path_no_backslash normalize_path_no_dot_slash)

text \<open>
  Claim C9 says that no listed path has a leading \<^verbatim>\<open>./\<close>. \<^verbatim>\<open>normalize_path\<close> turns
  backslashes into slashes only after \<^verbatim>\<open>normpath\<close> has run, and removes one leading
  \<^verbatim>\<open>./\<close> only: the stored name \<^verbatim>\<open>.\.\ch1.xhtml\<close> is listed as \<^verbatim>\<open>./ch1.xhtml\<close>.
\<close>

theorem zip_namelist_files_keeps_dot_slash:
  "zip_namelist_files [entry (''.'' @ [CHR 0x5C] @ ''.'' @ [CHR 0x5C] @ ''ch1.xhtml'') 8 []]
     = [''./ch1.xhtml''] \<and>
   startswith ''./ch1.xhtml'' ''./''"
  by code_simp

text \<open>
  A directory entry whose stored name ends in a backslash passes the filter on stored
  names, and is listed with a trailing slash.
\<close>

lemma zip_namelist_files_lists_backslash_directory:
  "zip_namelist_files [entry (''images'' @ [CHR 0x5C]) 0 []] = [''images/'']"
  by code_simp

section \<open>The comparison can raise\<close>

lemma parse_opf_bare_root:
  "fromstring lib opf_text = Some doc \<Longrightarrow> CHR ''}'' \<notin> set (tag doc) \<Longrightarrow>
     parse_opf lib opf_text opf_path = Inl SyntaxError"
  by (simp add: parse_opf_def ns_uri_of_def)

lemma dot_slash_mimetype_listing:
  "zip_namelist_files [entry ''./mimetype'' 0 ''application/epub+zip''] = [''mimetype'']"
  by code_simp

lemma dot_slash_mimetype_getinfo:
  "getinfo [entry ''./mimetype'' 0 ''application/epub+zip''] ''mimetype'' = Inl KeyError"
  by (simp add: getinfo_def entry_def)

text \<open>
  Claim C7 says that the comparison never raises once both archives are open. Two
  archives that open and make it raise: one whose mimetype entry is stored under the
  name \<^verbatim>\<open>./mimetype\<close>, found in the normalized listing and then looked up by
  \<^verbatim>\<open>getinfo('mimetype')\<close> (\<^verbatim>\<open>KeyError\<close>), whatever the other archive and the library do;
  and one whose package document has a root element in no namespace, for which the
  prefixed query raises \<^verbatim>\<open>SyntaxError\<close>.
\<close>

theorem compare_epub_raises:
  "compare_epub lib orig_path trans_path [entry ''./mimetype'' 0 ''application/epub+zip''] zt
     = Inl KeyError \<and>
   compare_epub bare_lib ''a.epub'' ''b.epub'' bare_epub bare_epub = Inl SyntaxError"
proof
  show "compare_epub lib orig_path trans_path [entry ''./mimetype'' 0 ''application/epub+zip''] zt
          = Inl KeyError"
    by (simp add: compare_epub_def Let_def mimetype_checks_def mimetype_check_def
        dot_slash_mimetype_listing dot_slash_mimetype_getinfo)
next
  show "compare_epub bare_lib ''a.epub'' ''b.epub'' bare_epub bare_epub = Inl SyntaxError"
    by code_simp
qed
text \<open>
  A third way to raise. The translated archive stores the package document as
  \<^verbatim>\<open>./content.opf\<close>: the file sets and the rootfile paths agree, the original package
  document is parsed and the translated one is not, and the summary reads
  \<^verbatim>\<open>man_missing\<close>, which was never bound.
\<close>

lemma compare_epub_unbound_local:
  "compare_epub epub_lib ''a.epub'' ''b.epub'' dangling_epub
     [entry ''mimetype'' 0 ''application/epub+zip'',
      entry ''META-INF/container.xml'' 8 container_text,
      entry ''./content.opf'' 8 package_text]
   = Inl UnboundLocalError"
  by code_simp

section \<open>Content Differ: the two buckets\<close>

lemma set_sorted_set: "finite s \<Longrightarrow> set (sorted_set s) = s"
  by (simp add: sorted_set_def)

lemma content_diff_loop_non_html:
  "non_html_changed (content_diff_loop lib zo zt ps st) =
     non_html_changed st @
     filter (\<lambda>p. content_differs zo zt p
                 \<and> \<not> (endswith (lower p) ''.html'' \<or> endswith (lower p) ''.xhtml'')
                 \<and> p \<noteq> ''mimetype'') ps"
proof (induction ps arbitrary: st)
  case Nil
  then show ?case by simp
next
  case (Cons p ps)
  show ?case
    by (cases "zip_read zo p"; cases "zip_read zt p")
       (simp_all add: Cons.IH content_differs_def Let_def)
qed

lemma content_diff_loop_html:
  "changed_html_paths (content_diff_loop lib zo zt ps st) =
     changed_html_paths st @
     filter (\<lambda>p. content_differs zo zt p
                 \<and> (endswith (lower p) ''.html'' \<or> endswith (lower p) ''.xhtml''
                      \<or> p = ''mimetype'')) ps"
proof (induction ps arbitrary: st)
  case Nil
  then show ?case by simp
next
  case (Cons p ps)
  show ?case
    by (cases "zip_read zo p"; cases "zip_read zt p")
       (auto simp: Cons.IH content_differs_def Let_def)
qed

text \<open>Whatever changed, the mimetype entry is never put in the non-markup bucket.\<close>

lemma mimetype_never_non_html:
  "''mimetype'' \<notin> set (non_html_changed (content_diff lib zo zt names_o names_t))"
  by (simp add: content_diff_def content_diff_loop_non_html)

text \<open>
  Claim C1, as amended. For every path other than \<^verbatim>\<open>mimetype\<close> that is present in both
  archives with different bytes, the change is put in the markup bucket exactly when the
  lower-cased path ends in \<^verbatim>\<open>.html\<close> or \<^verbatim>\<open>.xhtml\<close>, and in the non-markup bucket
  otherwise; the mimetype entry is never put in the non-markup bucket.
\<close>

theorem content_diff_classification:
  "p \<in> set names_o \<inter> set names_t \<Longrightarrow> content_differs zo zt p \<Longrightarrow> p \<noteq> ''mimetype'' \<Longrightarrow>
     (p \<in> set (changed_html_paths (content_diff lib zo zt names_o names_t))
        \<longleftrightarrow> endswith (lower p) ''.html'' \<or> endswith (lower p) ''.xhtml'') \<and>
     (p \<in> set (non_html_changed (content_diff lib zo zt names_o names_t))
        \<longleftrightarrow> \<not> (endswith (lower p) ''.html'' \<or> endswith (lower p) ''.xhtml'')) \<and>
     ''mimetype'' \<notin> set (non_html_changed (content_diff lib zo zt names_o names_t))"
proof -
  assume p: "p \<in> set names_o \<inter> set names_t" and d: "content_differs zo zt p"
    and n: "p \<noteq> ''mimetype''"
  have fin: "finite (set names_o \<inter> set names_t)" by simp
  from p have "p \<in> set (sorted_set (set names_o \<inter> set names_t))"
    by (simp only: set_sorted_set [OF fin])
  with d n show ?thesis
    by (simp add: content_diff_def content_diff_loop_non_html content_diff_loop_html)
qed

text \<open>The theorem at an archive pair whose chapter and style sheet both changed.\<close>

theorem content_diff_classification_witness:
  "changed_html_paths
     (content_diff example_lib
        [entry ''ch1.XHTML'' 8 ''<p>one</p>'', entry ''style.css'' 8 ''p {}'']
        [entry ''ch1.XHTML'' 8 ''<p>uno</p>'', entry ''style.css'' 8 ''p { }'']
        [''ch1.XHTML'', ''style.css''] [''ch1.XHTML'', ''style.css'']) = [''ch1.XHTML''] \<and>
   non_html_changed
     (content_diff example_lib
        [entry ''ch1.XHTML'' 8 ''<p>one</p>'', entry ''style.css'' 8 ''p {}'']
        [entry ''ch1.XHTML'' 8 ''<p>uno</p>'', entry ''style.css'' 8 ''p { }'']
        [''ch1.XHTML'', ''style.css''] [''ch1.XHTML'', ''style.css'']) = [''style.css''] \<and>
   endswith (lower ''ch1.XHTML'') ''.xhtml'' \<and>
   (''ch1.XHTML'' \<in> set (changed_html_paths
     (content_diff example_lib
        [entry ''ch1.XHTML'' 8 ''<p>one</p>'', entry ''style.css'' 8 ''p {}'']
        [entry ''ch1.XHTML'' 8 ''<p>uno</p>'', entry ''style.css'' 8 ''p { }'']
        [''ch1.XHTML'', ''style.css''] [''ch1.XHTML'', ''style.css'']))
    \<longleftrightarrow> endswith (lower ''ch1.XHTML'') ''.html'' \<or> endswith (lower ''ch1.XHTML'') ''.xhtml'')"
proof -
  let ?zo = "[entry ''ch1.XHTML'' 8 ''<p>one</p>'', entry ''style.css'' 8 ''p {}'']"
  let ?zt = "[entry ''ch1.XHTML'' 8 ''<p>uno</p>'', entry ''style.css'' 8 ''p { }'']"
  let ?ns = "[''ch1.XHTML'', ''style.css'']"
  have h1: "''ch1.XHTML'' \<in> set ?ns \<inter> set ?ns" by simp
  have h2: "content_differs ?zo ?zt ''ch1.XHTML''" by code_simp
  have h3: "''ch1.XHTML'' \<noteq> ''mimetype''" by simp
  have e1: "changed_html_paths (content_diff example_lib ?zo ?zt ?ns ?ns) = [''ch1.XHTML'']"
    by code_simp
  have e2: "non_html_changed (content_diff example_lib ?zo ?zt ?ns ?ns) = [''style.css'']"
    by code_simp
  have e3: "endswith (lower ''ch1.XHTML'') ''.xhtml''" by code_simp
  from content_diff_classification [OF h1 h2 h3, of example_lib] e1 e2 e3
  show ?thesis by simp
qed

text \<open>
  Claim C1 as stated fails at a changed mimetype entry: its path has no markup
  extension, yet it is put in the markup bucket.
\<close>

theorem content_diff_mimetype_counterexample:
  "''mimetype'' \<in> set (changed_html_paths
      (content_diff example_lib
         [entry ''mimetype'' 0 ''application/epub+zip''] [entry ''mimetype'' 0 ''text/plain'']
         (zip_namelist_files [entry ''mimetype'' 0 ''application/epub+zip''])
         (zip_namelist_files [entry ''mimetype'' 0 ''text/plain'']))) \<and>
   \<not> (endswith (lower ''mimetype'') ''.html'' \<or> endswith (lower ''mimetype'') ''.xhtml'')"
  by code_simp

section \<open>Structural Differ: the checks on the mimetype entry\<close>




section \<open>Markup Validator: which section reports what\<close>

lemma ref_loop_characterisation:
  "ref_loop base_dir zip_names ms =
     map missing_resource
       (filter (\<lambda>full. full \<notin> zip_names)
          (map (resolve_ref base_dir) (filter (\<lambda>href. \<not> skipped_ref href) (map strip ms))))"
  by (induction ms) (simp_all add: Let_def)

lemma count_missing_resource:
  "count_list (map missing_resource xs) (missing_resource full) = count_list xs full"
  by (induction xs) (simp_all add: missing_resource_def)

lemma count_filter_absent:
  "count_list (filter (\<lambda>x. x \<notin> s) xs) y = (if y \<in> s then 0 else count_list xs y)"
  by (induction xs) auto

lemma toc_message_not_resource: "missing_resource full \<noteq> toc_message"
  by (simp add: missing_resource_def toc_message_def)

lemma count_ref_issues_toc: "count_list (ref_issues path text zip_names) toc_message = 0"
proof -
  have "toc_message \<notin> set (map missing_resource xs)" for xs
    using toc_message_not_resource by (metis ex_map_conv)
  then show ?thesis
    unfolding ref_issues_def ref_loop_characterisation by (rule count_notin)
qed

lemma count_other_sections_toc:
  "count_list (xmlns_issues is_xhtml lt) toc_message = 0"
  "count_list (amp_issues text) toc_message = 0"
  "count_list (void_issues is_xhtml text) toc_message = 0"
  by (simp_all add: xmlns_issues_def amp_issues_def void_issues_def toc_message_def)

lemma count_other_sections_resource:
  "count_list (xmlns_issues is_xhtml lt) (missing_resource full) = 0"
  "count_list (amp_issues text) (missing_resource full) = 0"
  "count_list (void_issues is_xhtml text) (missing_resource full) = 0"
  "count_list (toc_issues path lt) (missing_resource full) = 0"
  by (simp_all add: xmlns_issues_def amp_issues_def void_issues_def toc_issues_def
      missing_resource_def toc_message_def)

text \<open>
  Claim C3, as amended. For every validated document whose base filename starts with
  \<^verbatim>\<open>toc\<close>, in any case, the validator emits the TOC finding, once, exactly when the
  lower-cased text lacks \<^verbatim>\<open>nav\<close> or lacks both the TOC epub-type attribute and the
  doc-toc role attribute; there is no TOC finding only when \<^verbatim>\<open>nav\<close> occurs together
  with at least one of the two attributes.
\<close>

theorem toc_finding_condition:
  "startswith (lower (basename path)) ''toc'' \<Longrightarrow>
     count_list (find_html_issues path text is_xhtml zip_names) toc_message =
       (if contains ''nav'' (lower text)
             \<and> (contains toc_epub_type (lower text) \<or> contains toc_role (lower text))
        then 0 else 1)"
  by (simp add: find_html_issues_def Let_def count_other_sections_toc count_ref_issues_toc
      toc_issues_def)

text \<open>The theorem at a navigation document that carries the marker and the attribute.\<close>

theorem toc_finding_condition_witness:
  "startswith (lower (basename ''OEBPS/TOC.xhtml'')) ''toc'' \<and>
   contains ''nav'' (lower (''<nav '' @ toc_epub_type @ ''/>'')) \<and>
   contains toc_epub_type (lower (''<nav '' @ toc_epub_type @ ''/>'')) \<and>
   count_list (find_html_issues ''OEBPS/TOC.xhtml'' (''<nav '' @ toc_epub_type @ ''/>'') False {})
     toc_message = 0"
proof -
  have h: "startswith (lower (basename ''OEBPS/TOC.xhtml'')) ''toc''" by code_simp
  have n: "contains ''nav'' (lower (''<nav '' @ toc_epub_type @ ''/>''))" by code_simp
  have t: "contains toc_epub_type (lower (''<nav '' @ toc_epub_type @ ''/>''))" by code_simp
  from toc_finding_condition [OF h, of "''<nav '' @ toc_epub_type @ ''/>''" False "{}"] h n t
  show ?thesis by simp
qed

text \<open>
  Claim C3 as stated fails at a document that contains the nav marker alone, and at one
  that contains the role attribute alone: both produce the TOC finding.
\<close>

theorem toc_finding_counterexample:
  "contains ''nav'' (lower ''<nav></nav>'') \<and>
   count_list (find_html_issues ''toc.xhtml'' ''<nav></nav>'' False {}) toc_message = 1 \<and>
   contains toc_role (lower (''<ol '' @ toc_role @ ''/>'')) \<and>
   count_list (find_html_issues ''toc.xhtml'' (''<ol '' @ toc_role @ ''/>'') False {}) toc_message = 1"
  by code_simp

subsection \<open>Resolution of plain relative references\<close>

lemma join_Cons: "xs \<noteq> [] \<Longrightarrow> join sep (x # xs) = x @ sep @ join sep xs"
  by (cases xs) simp_all

lemma join_append:
  "xs \<noteq> [] \<Longrightarrow> ys \<noteq> [] \<Longrightarrow> join sep (xs @ ys) = join sep xs @ sep @ join sep ys"
proof (induction xs)
  case Nil
  then show ?case by simp
next
  case (Cons x xs)
  show ?case
  proof (cases "xs = []")
    case True
    with Cons.prems show ?thesis by (simp add: join_Cons)
  next
    case False
    with Cons.IH Cons.prems have "join sep (xs @ ys) = join sep xs @ sep @ join sep ys" by simp
    with False show ?thesis by (simp add: join_Cons)
  qed
qed

lemma join_starts: "xs \<noteq> [] \<Longrightarrow> \<exists>t. join sep xs = hd xs @ t"
  by (cases xs; cases "tl xs") auto

lemma normpath_of_join:
  assumes "xs \<noteq> []" and "hd xs \<noteq> []" and "\<forall>x \<in> set xs. CHR ''/'' \<notin> set x"
  shows "normpath (join ''/'' xs) =
           (if norm_comps 0 [] xs = [] then ''.'' else join ''/'' (norm_comps 0 [] xs))"
proof -
  let ?p = "join ''/'' xs" and ?r = "norm_comps 0 [] xs"
  obtain t where t: "?p = hd xs @ t" using join_starts [OF assms(1)] by blast
  obtain a as where a: "hd xs = a # as" using assms(2) by (cases "hd xs") auto
  have "a \<in> set (hd xs)" using a by simp
  with assms(1,3) have "a \<noteq> CHR ''/''" by (metis hd_in_set)
  with t a have ns: "\<not> startswith ?p ''/''" and ne: "?p \<noteq> []"
    by (simp_all add: startswith_def)
  have sp: "split_sep CHR ''/'' ?p = xs"
    using split_sep_join [of xs "CHR ''/''"] assms(1,3) by simp
  have "?r \<noteq> [] \<Longrightarrow> join ''/'' ?r \<noteq> []"
  proof -
    assume r: "?r \<noteq> []"
    then have "hd ?r \<in> set ?r" by simp
    then have "hd ?r \<noteq> []" using norm_comps_elems [of "hd ?r" 0 "[]" xs] by auto
    with join_starts [OF r, of "''/''"] show ?thesis by auto
  qed
  with ne ns sp show ?thesis
    by (auto simp: normpath_def Let_def)
qed

lemma norm_comps_plain:
  "\<forall>p \<in> set ps. plain_comp p \<Longrightarrow>
     norm_comps k new (ps @ rest) = norm_comps k (new @ ps) rest"
  by (induction ps arbitrary: new) (auto simp: plain_comp_def)

lemma norm_comps_dotdot:
  "\<forall>q \<in> set qs. plain_comp q \<Longrightarrow>
     norm_comps 0 (replicate j ''..'' @ qs) (replicate n ''..'' @ rest) =
     norm_comps 0 (replicate (j + (n - length qs)) ''..'' @ take (length qs - n) qs) rest"
proof (induction n arbitrary: j qs)
  case 0
  then show ?case by simp
next
  case (Suc n)
  show ?case
  proof (cases qs rule: rev_cases)
    case Nil
    have "norm_comps 0 (replicate j ''..'') (''..'' # replicate n ''..'' @ rest)
            = norm_comps 0 (replicate (Suc j) ''..'' @ []) (replicate n ''..'' @ rest)"
      by (cases j) (simp_all add: replicate_append_same)
    also have "\<dots> = norm_comps 0 (replicate (Suc j + (n - length ([]::string list))) ''..''
                         @ take (length ([]::string list) - n) []) rest"
      by (rule Suc.IH) simp
    finally show ?thesis using Nil by simp
  next
    case (snoc qs' q)
    with Suc.prems have q: "plain_comp q" and qs': "\<forall>q \<in> set qs'. plain_comp q" by simp_all
    from q have "q \<noteq> ''..''" by (simp add: plain_comp_def)
    then have "norm_comps 0 (replicate j ''..'' @ qs' @ [q]) (''..'' # replicate n ''..'' @ rest)
            = norm_comps 0 (butlast (replicate j ''..'' @ qs' @ [q])) (replicate n ''..'' @ rest)"
      by simp
    also have "butlast (replicate j ''..'' @ qs' @ [q]) = replicate j ''..'' @ qs'"
      by (simp add: butlast_append)
    also have "norm_comps 0 (replicate j ''..'' @ qs') (replicate n ''..'' @ rest)
            = norm_comps 0 (replicate (j + (n - length qs')) ''..'' @ take (length qs' - n) qs') rest"
      by (rule Suc.IH [OF qs'])
    finally show ?thesis using snoc by simp
  qed
qed

lemma strip_no_space: "\<forall>c \<in> set s. \<not> isspace c \<Longrightarrow> strip s = s"
proof -
  assume a: "\<forall>c \<in> set s. \<not> isspace c"
  then have "dropWhile isspace s = s" by (cases s) auto
  moreover from a have "dropWhile isspace (rev s) = rev s" by (cases "rev s") auto
  ultimately show ?thesis by (simp add: strip_def)
qed


lemma join_ends: "xs \<noteq> [] \<Longrightarrow> \<exists>t. join sep xs = t @ last xs"
proof (induction xs)
  case Nil
  then show ?case by simp
next
  case (Cons x xs)
  show ?case
  proof (cases "xs = []")
    case True
    then show ?thesis by simp
  next
    case False
    with Cons.IH obtain t where "join sep xs = t @ last xs" by blast
    with False have "join sep (x # xs) = (x @ sep @ t) @ last (x # xs)"
      by (simp add: join_Cons)
    then show ?thesis by blast
  qed
qed

lemma plain_or_dotdot_chars:
  "c = ''..'' \<or> plain_comp c \<Longrightarrow>
     c \<noteq> [] \<and> c \<noteq> ''.'' \<and> (\<forall>ch \<in> set c. ch \<noteq> CHR ''/'' \<and> ch \<noteq> backslash \<and> \<not> isspace ch)"
  by (auto simp: plain_comp_def backslash_def isspace_def)

lemma join_clean:
  assumes "r \<noteq> []" and "\<forall>c \<in> set r. c = ''..'' \<or> plain_comp c"
  shows "strip (replace_backslash (join ''/'' r)) = join ''/'' r"
    and "\<not> startswith (join ''/'' r) ''./''"
proof -
  have chars: "\<forall>ch \<in> set (join ''/'' r). ch \<noteq> backslash \<and> \<not> isspace ch"
  proof
    fix ch assume "ch \<in> set (join ''/'' r)"
    with set_join_subset [of "''/''" r] have "ch = CHR ''/'' \<or> (\<exists>c \<in> set r. ch \<in> set c)"
      by auto
    then show "ch \<noteq> backslash \<and> \<not> isspace ch"
    proof
      assume "ch = CHR ''/''"
      then show ?thesis by (simp add: backslash_def isspace_def)
    next
      assume "\<exists>c \<in> set r. ch \<in> set c"
      then obtain c where "c \<in> set r" "ch \<in> set c" by blast
      with assms(2) plain_or_dotdot_chars [of c] show ?thesis by blast
    qed
  qed
  then have "replace_backslash (join ''/'' r) = join ''/'' r"
    by (auto simp: replace_backslash_def intro!: map_idI)
  with chars show "strip (replace_backslash (join ''/'' r)) = join ''/'' r"
    by (simp add: strip_no_space)
  obtain t where t: "join ''/'' r = hd r @ t" using join_starts [OF assms(1)] by blast
  from assms have h: "hd r \<noteq> [] \<and> hd r \<noteq> ''.'' \<and> CHR ''/'' \<notin> set (hd r)"
    using plain_or_dotdot_chars [of "hd r"] by (metis hd_in_set)
  show "\<not> startswith (join ''/'' r) ''./''"
  proof
    assume "startswith (join ''/'' r) ''./''"
    with t obtain u where u: "hd r @ t = CHR ''.'' # CHR ''/'' # u"
      by (auto simp: startswith_def prefix_def)
    from h obtain a as where a: "hd r = a # as" by (cases "hd r") auto
    with u have "a = CHR ''.''" and rest: "as @ t = CHR ''/'' # u" by simp_all
    show False
    proof (cases as)
      case Nil
      with a \<open>a = CHR ''.''\<close> h show False by simp
    next
      case (Cons b bs)
      with rest have "b = CHR ''/''" by simp
      with Cons a h show False by simp
    qed
  qed
qed

lemma dirname_plain: "plain_comp f \<Longrightarrow> dirname f = []"
proof -
  assume "plain_comp f"
  then have "\<forall>c \<in> set (rev f). c \<noteq> CHR ''/''" by (simp add: plain_comp_def)
  then have "dropWhile (\<lambda>c. c \<noteq> CHR ''/'') (rev f) = []" by simp
  then show ?thesis by (simp add: dirname_def)
qed

lemma dirname_join:
  assumes "ds \<noteq> []" and "\<forall>c \<in> set ds. plain_comp c" and "plain_comp f"
  shows "dirname (join ''/'' (ds @ [f])) = join ''/'' ds"
proof -
  let ?a = "join ''/'' ds"
  have p: "join ''/'' (ds @ [f]) = ?a @ CHR ''/'' # f"
    using join_append [OF assms(1), of "[f]" "''/''"] by simp
  from assms(3) have nf: "\<forall>c \<in> set (rev f). c \<noteq> CHR ''/''" by (simp add: plain_comp_def)
  have "dropWhile (\<lambda>c. c \<noteq> CHR ''/'') (rev f @ CHR ''/'' # rev ?a)
          = dropWhile (\<lambda>c. c \<noteq> CHR ''/'') (CHR ''/'' # rev ?a)"
    by (rule dropWhile_append2) (use nf in auto)
  then have "dropWhile (\<lambda>c. c \<noteq> CHR ''/'') (rev f @ CHR ''/'' # rev ?a) = CHR ''/'' # rev ?a"
    by simp
  then have head: "rev (dropWhile (\<lambda>c. c \<noteq> CHR ''/'') (rev (?a @ CHR ''/'' # f))) = ?a @ ''/''"
    by simp
  obtain t where t: "?a = t @ last ds" using join_ends [OF assms(1)] by blast
  from assms(1,2) have l: "last ds \<noteq> [] \<and> CHR ''/'' \<notin> set (last ds)"
    by (metis last_in_set plain_comp_def)
  then have la: "?a \<noteq> [] \<and> last ?a \<noteq> CHR ''/''"
    using t by (metis append_is_Nil_conv last_appendR last_in_set)
  have "?a @ ''/'' \<noteq> replicate (length (?a @ ''/'')) CHR ''/''"
  proof
    assume e: "?a @ ''/'' = replicate (length (?a @ ''/'')) CHR ''/''"
    from la have "last ?a \<in> set (?a @ ''/'')" by simp
    then have "last ?a \<in> set (replicate (length (?a @ ''/'')) CHR ''/'')"
      by (simp only: e [symmetric])
    then have "last ?a = CHR ''/''" by (simp only: in_set_replicate)
    with la show False by simp
  qed
  moreover have "rstrip_char CHR ''/'' (?a @ ''/'') = ?a"
  proof -
    have "rev ?a \<noteq> [] \<and> hd (rev ?a) \<noteq> CHR ''/''" using la by (simp add: hd_rev)
    then have "dropWhile (\<lambda>c. c = CHR ''/'') (rev ?a) = rev ?a" by (cases "rev ?a") auto
    then show ?thesis by (simp add: rstrip_char_def)
  qed
  ultimately show ?thesis
    unfolding dirname_def p head Let_def by simp
qed

lemma normalize_path_plain:
  assumes "ds \<noteq> []" and "\<forall>c \<in> set ds. plain_comp c"
  shows "normalize_path (join ''/'' ds) = join ''/'' ds"
proof -
  from assms have hd: "hd ds \<noteq> []" and sl: "\<forall>x \<in> set ds. CHR ''/'' \<notin> set x"
    by (auto simp: plain_comp_def)
  have "norm_comps 0 [] ds = ds"
    using norm_comps_plain [OF assms(2), of 0 "[]" "[]"] by simp
  with normpath_of_join [OF assms(1) hd sl] assms(1)
  have "normpath (join ''/'' ds) = join ''/'' ds" by simp
  moreover from assms(2) have "\<forall>c \<in> set ds. c = ''..'' \<or> plain_comp c" by simp
  ultimately show ?thesis
    using join_clean [OF assms(1), of] by (simp add: normalize_path_def Let_def)
qed

lemma normalize_path_empty: "normalize_path [] = ''.''"
  by code_simp

text \<open>
  A reference that climbs \<open>k\<close> directories and then descends through plain components,
  seen from a document whose path consists of plain components: the first \<open>k\<close>
  directories of the document, from the innermost, are dropped, and the climbs that are
  left over stay in front.
\<close>

lemma resolve_joined:
  assumes bs: "bs \<noteq> []" "\<forall>c \<in> set bs. c = ''.'' \<or> plain_comp c"
    and cs: "\<forall>c \<in> set cs. plain_comp c" and ne: "cs \<noteq> []"
  shows "path_join (join ''/'' bs) (join ''/'' (replicate k ''..'' @ cs))
           = join ''/'' (bs @ replicate k ''..'' @ cs)"
proof -
  let ?hs = "replicate k ''..'' @ cs"
  have hs_ne: "?hs \<noteq> []" using ne by simp
  have "hd ?hs = ''..'' \<or> plain_comp (hd ?hs)"
    using cs ne by (cases k) (simp_all add: hd_append)
  then have hs_hd: "hd ?hs \<noteq> [] \<and> CHR ''/'' \<notin> set (hd ?hs)"
    using plain_or_dotdot_chars [of "hd ?hs"] by blast
  obtain t where t: "join ''/'' ?hs = hd ?hs @ t" using join_starts [OF hs_ne] by blast
  obtain a as where a: "hd ?hs = a # as" using hs_hd by (cases "hd ?hs") auto
  with hs_hd have "a \<noteq> CHR ''/''" by auto
  with t a have h_rel: "\<not> startswith (join ''/'' ?hs) ''/''"
    by (simp add: startswith_def)
  obtain u where u: "join ''/'' bs = u @ last bs" using join_ends [OF bs(1)] by blast
  from bs have "last bs = ''.'' \<or> plain_comp (last bs)" by simp
  then have lb: "last bs \<noteq> [] \<and> last (last bs) \<noteq> CHR ''/''"
  proof
    assume "last bs = ''.''"
    then show ?thesis by simp
  next
    assume "plain_comp (last bs)"
    then have "last bs \<noteq> [] \<and> CHR ''/'' \<notin> set (last bs)" by (auto simp: plain_comp_def)
    then show ?thesis by (metis last_in_set)
  qed
  with u have jb: "join ''/'' bs \<noteq> [] \<and> last (join ''/'' bs) \<noteq> CHR ''/''"
    by simp
  have "\<not> endswith (join ''/'' bs) ''/''"
  proof
    assume "endswith (join ''/'' bs) ''/''"
    then obtain w where "join ''/'' bs = w @ ''/''" by (auto simp: endswith_def suffix_def)
    then have "last (join ''/'' bs) = CHR ''/''" by simp
    with jb show False by simp
  qed
  with jb h_rel have "path_join (join ''/'' bs) (join ''/'' ?hs)
                        = join ''/'' bs @ ''/'' @ join ''/'' ?hs"
    by (simp add: path_join_def)
  also have "\<dots> = join ''/'' (bs @ ?hs)"
    using join_append [OF bs(1) hs_ne, of "''/''"] by simp
  finally show ?thesis .
qed

lemma normalize_path_of_comps:
  assumes xs: "xs \<noteq> []" "\<forall>c \<in> set xs. c = ''.'' \<or> c = ''..'' \<or> plain_comp c"
    and r: "norm_comps 0 [] xs = r" "r \<noteq> []" "\<forall>c \<in> set r. c = ''..'' \<or> plain_comp c"
  shows "normalize_path (join ''/'' xs) = join ''/'' r"
proof -
  have one: "c = ''.'' \<or> c = ''..'' \<or> plain_comp c \<Longrightarrow> c \<noteq> [] \<and> CHR ''/'' \<notin> set c" for c
    by (auto simp: plain_comp_def)
  from xs have "hd xs \<in> set xs" by simp
  with xs(2) one [of "hd xs"] have hd: "hd xs \<noteq> []" by blast
  from xs(2) one have sl: "\<forall>x \<in> set xs. CHR ''/'' \<notin> set x" by blast
  from normpath_of_join [OF xs(1) hd sl] r(1,2)
  have "normpath (join ''/'' xs) = join ''/'' r" by simp
  with join_clean [OF r(2,3)] show ?thesis
    by (simp add: normalize_path_def Let_def)
qed

text \<open>
  A reference that climbs \<open>k\<close> directories and then descends through plain components,
  seen from a document whose path consists of plain components: the innermost \<open>k\<close>
  directories of the document are dropped, and the climbs that are left over stay in
  front.
\<close>

lemma resolve_plain:
  assumes ds: "\<forall>c \<in> set ds. plain_comp c" and f: "plain_comp f"
    and cs: "\<forall>c \<in> set cs. plain_comp c" and ne: "cs \<noteq> []"
  shows "normalize_path (path_join (normalize_path (dirname (join ''/'' (ds @ [f]))))
                          (join ''/'' (replicate k ''..'' @ cs)))
           = join ''/'' (replicate (k - length ds) ''..'' @ take (length ds - k) ds @ cs)"
proof -
  let ?hs = "replicate k ''..'' @ cs"
  let ?r = "replicate (k - length ds) ''..'' @ take (length ds - k) ds @ cs"
  have r_ne: "?r \<noteq> []" using ne by simp
  have r_ok: "\<forall>c \<in> set ?r. c = ''..'' \<or> plain_comp c"
  proof
    fix c assume "c \<in> set ?r"
    then have "c = ''..'' \<or> c \<in> set (take (length ds - k) ds) \<or> c \<in> set cs" by auto
    with ds cs show "c = ''..'' \<or> plain_comp c" by (blast dest: in_set_takeD)
  qed
  have tail: "norm_comps 0 ds ?hs = ?r"
  proof -
    have "norm_comps 0 ds ?hs
            = norm_comps 0 (replicate (k - length ds) ''..'' @ take (length ds - k) ds) cs"
      using norm_comps_dotdot [OF ds, of 0 k cs] by simp
    also have "\<dots> = ?r"
      using norm_comps_plain [OF cs, of 0 "replicate (k - length ds) ''..'' @ take (length ds - k) ds" "[]"]
      by simp
    finally show ?thesis .
  qed
  show ?thesis
  proof (cases "ds = []")
    case True
    have base: "normalize_path (dirname (join ''/'' (ds @ [f]))) = join ''/'' [''.'']"
      using True f by (simp add: dirname_plain normalize_path_empty)
    have j: "path_join (join ''/'' [''.'']) (join ''/'' ?hs) = join ''/'' ([''.''] @ ?hs)"
      by (rule resolve_joined [OF _ _ cs ne]) simp_all
    have n: "norm_comps 0 [] ([''.''] @ ?hs) = ?r"
      using tail True by simp
    have ok: "\<forall>c \<in> set ([''.''] @ ?hs). c = ''.'' \<or> c = ''..'' \<or> plain_comp c"
      using cs by auto
    have "normalize_path (join ''/'' ([''.''] @ ?hs)) = join ''/'' ?r"
      by (rule normalize_path_of_comps [OF _ ok n r_ne r_ok]) simp
    with base j show ?thesis by (simp only:)
  next
    case False
    have base: "normalize_path (dirname (join ''/'' (ds @ [f]))) = join ''/'' ds"
      using False ds f by (simp add: dirname_join normalize_path_plain)
    have dsok: "\<forall>c \<in> set ds. c = ''.'' \<or> plain_comp c" using ds by simp
    have j: "path_join (join ''/'' ds) (join ''/'' ?hs) = join ''/'' (ds @ ?hs)"
      by (rule resolve_joined [OF False dsok cs ne])
    have n: "norm_comps 0 [] (ds @ ?hs) = ?r"
      using norm_comps_plain [OF ds, of 0 "[]" ?hs] tail by simp
    have ok: "\<forall>c \<in> set (ds @ ?hs). c = ''.'' \<or> c = ''..'' \<or> plain_comp c"
      using ds cs by auto
    have "normalize_path (join ''/'' (ds @ ?hs)) = join ''/'' ?r"
      by (rule normalize_path_of_comps [OF _ ok n r_ne r_ok]) (use False in simp)
    with base j show ?thesis by (simp only:)
  qed
qed

lemma lower_length: "length (lower s) = length s"
  by (simp add: lower_def)

text \<open>
  The pattern at an attribute: the name and the equals sign, a quote character, a
  non-empty value without quote characters and a quote character are one match, whose
  group is the value, and the search goes on behind the closing quote.
\<close>

lemma find_refs_at_attribute:
  assumes a: "lower a = ''src='' \<or> lower a = ''href=''"
    and q: "q \<in> {CHR 0x22, CHR 0x27}" "q' \<in> {CHR 0x22, CHR 0x27}"
    and v: "v \<noteq> []" "CHR 0x22 \<notin> set v" "CHR 0x27 \<notin> set v"
  shows "find_refs (a @ q # v @ q' # post) = v # find_refs post"
proof -
  let ?s = "a @ q # v @ q' # post"
  have nq: "\<forall>c \<in> set v. \<not> is_quote c" using v by (auto simp: is_quote_def)
  have qq: "is_quote q" "is_quote q'" using q by (auto simp: is_quote_def)
  have tw: "takeWhile (\<lambda>c. \<not> is_quote c) (v @ q' # post) = v"
    using nq qq by (simp add: takeWhile_append2)
  have dw: "dropWhile (\<lambda>c. \<not> is_quote c) (v @ q' # post) = q' # post"
    using nq qq by (simp add: dropWhile_append2)
  have m: "match_ref_here ?s = Some (v, post)"
    using a
  proof
    assume s: "lower a = ''src=''"
    then have "length a = 4" using lower_length [of a] by simp
    then have "take 4 ?s = a" "drop 4 ?s = q # v @ q' # post" by simp_all
    with s qq tw dw v(1) show ?thesis
      by (simp add: match_ref_here_def Let_def)
  next
    assume h: "lower a = ''href=''"
    then have l: "length a = 5" using lower_length [of a] by simp
    then have t5: "take 5 ?s = a" "drop 5 ?s = q # v @ q' # post" by simp_all
    from l have "take 4 ?s = take 4 a" by simp
    then have "lower (take 4 ?s) = take 4 (lower a)" by (simp add: lower_def take_map)
    with h have n: "lower (take 4 ?s) \<noteq> ''src=''" by simp
    from n h t5 qq tw dw v(1) show ?thesis
      by (simp add: match_ref_here_def Let_def)
  qed
  from a obtain c cs where c: "a = c # cs" by (cases a) (auto simp: lower_def)
  then have "?s = c # (cs @ q # v @ q' # post)" by simp
  then have "find_refs ?s = (case match_ref_here ?s of
                               None \<Rightarrow> find_refs (cs @ q # v @ q' # post)
                             | Some (v, rest) \<Rightarrow> v # find_refs rest)"
    by (simp only: find_refs.simps)
  with m show ?thesis by simp
qed

lemma has_scheme_iff:
  "has_scheme h \<longleftrightarrow>
     (\<exists>c s rest. h = c # s @ CHR '':'' # rest \<and> is_ascii_alpha c \<and> (\<forall>x \<in> set s. is_scheme_char x))"
proof
  assume hs: "has_scheme h"
  then obtain c cs where h: "h = c # cs" by (cases h) (simp_all add: has_scheme_def)
  with hs have a: "is_ascii_alpha c" and t: "take 1 (dropWhile is_scheme_char cs) = '':''"
    by (simp_all add: has_scheme_def)
  from t obtain rest where d: "dropWhile is_scheme_char cs = CHR '':'' # rest"
    by (cases "dropWhile is_scheme_char cs") simp_all
  have "cs = takeWhile is_scheme_char cs @ dropWhile is_scheme_char cs" by simp
  with d have "cs = takeWhile is_scheme_char cs @ CHR '':'' # rest" by simp
  moreover have "\<forall>x \<in> set (takeWhile is_scheme_char cs). is_scheme_char x"
    by (auto dest: set_takeWhileD)
  ultimately show "\<exists>c s rest. h = c # s @ CHR '':'' # rest \<and> is_ascii_alpha c
                     \<and> (\<forall>x \<in> set s. is_scheme_char x)"
    using h a by blast
next
  assume "\<exists>c s rest. h = c # s @ CHR '':'' # rest \<and> is_ascii_alpha c
                     \<and> (\<forall>x \<in> set s. is_scheme_char x)"
  then obtain c s rest where h: "h = c # s @ CHR '':'' # rest" and a: "is_ascii_alpha c"
    and s: "\<forall>x \<in> set s. is_scheme_char x" by blast
  have n: "\<not> is_scheme_char CHR '':''" by code_simp
  from s n have "dropWhile is_scheme_char (s @ CHR '':'' # rest) = CHR '':'' # rest"
    by (simp add: dropWhile_append2)
  with h a show "has_scheme h" by (simp add: has_scheme_def)
qed

lemma count_map_filter_map:
  "count_list (map g (filter P (map h vs))) y = length (filter (\<lambda>v. P (h v) \<and> g (h v) = y) vs)"
  by (induction vs) simp_all

text \<open>
  Claim C6, as amended. The reference check works on the values the source's pattern
  captures: \<^verbatim>\<open>src=\<close> or \<^verbatim>\<open>href=\<close> in any case, directly followed by a quote character,
  one or more characters that are not quote characters, and a quote character; such a
  text is one match that yields the value between the quotes, and the search goes on
  behind it. Each captured value is stripped; when it is not empty, does not start with
  \<^verbatim>\<open>#\<close> and has no scheme prefix (a letter, then letters, digits and the characters
  \<^verbatim>\<open>+\<close>, \<^verbatim>\<open>.\<close>, \<^verbatim>\<open>-\<close>, then a colon), it is joined to the normalized directory of the
  validated document, normalized, and looked up in the file set. In the validator's output a resolved path
  that is absent from the file set is reported exactly once for each captured value
  that resolves to it, and a present one never. For a document path and a reference
  made of plain components, the reference climbing \<open>k\<close> directories first, the resolved
  path is the document's directory without its innermost \<open>k\<close> components, followed by
  the components of the reference: \<^verbatim>\<open>img/cover.png\<close> in \<^verbatim>\<open>text/ch1.xhtml\<close> resolves to
  \<^verbatim>\<open>text/img/cover.png\<close>, and \<^verbatim>\<open>../img/cover.png\<close> to \<^verbatim>\<open>img/cover.png\<close>.
\<close>

theorem ref_issues_per_captured_value:
  "count_list (find_html_issues path text is_xhtml zip_names)
     (''missing referenced resource: '' @ full) =
     (if full \<in> zip_names then 0
      else length (filter (\<lambda>v. strip v \<noteq> [] \<and> \<not> startswith (strip v) ''#''
                                \<and> \<not> has_scheme (strip v)
                                \<and> normalize_path (path_join (normalize_path (dirname path)) (strip v))
                                    = full)
                     (find_refs text))) \<and>
   ((\<forall>c \<in> set ds. plain_comp c) \<and> plain_comp f \<and> (\<forall>c \<in> set cs. plain_comp c) \<and> cs \<noteq> [] \<longrightarrow>
      normalize_path (path_join (normalize_path (dirname (join ''/'' (ds @ [f]))))
                        (join ''/'' (replicate k ''..'' @ cs)))
        = join ''/'' (replicate (k - length ds) ''..'' @ take (length ds - k) ds @ cs)) \<and>
   ((lower a = ''src='' \<or> lower a = ''href='') \<and> q \<in> {CHR 0x22, CHR 0x27}
      \<and> q' \<in> {CHR 0x22, CHR 0x27} \<and> v \<noteq> [] \<and> CHR 0x22 \<notin> set v \<and> CHR 0x27 \<notin> set v \<longrightarrow>
      find_refs (a @ q # v @ q' # post) = v # find_refs post) \<and>
   (has_scheme h \<longleftrightarrow>
      (\<exists>c s rest. h = c # s @ CHR '':'' # rest \<and> is_ascii_alpha c \<and> (\<forall>x \<in> set s. is_scheme_char x)))"
proof (intro conjI impI)
  have r: "ref_issues path text zip_names =
     map missing_resource
       (filter (\<lambda>full. full \<notin> zip_names)
          (map (resolve_ref (normalize_path (dirname path)))
             (filter (\<lambda>href. \<not> skipped_ref href) (map strip (find_refs text)))))"
    by (simp add: ref_issues_def ref_loop_characterisation)
  have "count_list (find_html_issues path text is_xhtml zip_names) (missing_resource full) =
     (if full \<in> zip_names then 0
      else count_list (map (resolve_ref (normalize_path (dirname path)))
                         (filter (\<lambda>href. \<not> skipped_ref href) (map strip (find_refs text)))) full)"
    unfolding find_html_issues_def Let_def count_list_append count_other_sections_resource r
      count_missing_resource count_filter_absent
    by simp
  then show "count_list (find_html_issues path text is_xhtml zip_names)
     (''missing referenced resource: '' @ full) =
     (if full \<in> zip_names then 0
      else length (filter (\<lambda>v. strip v \<noteq> [] \<and> \<not> startswith (strip v) ''#''
                                \<and> \<not> has_scheme (strip v)
                                \<and> normalize_path (path_join (normalize_path (dirname path)) (strip v))
                                    = full)
                     (find_refs text)))"
    unfolding count_map_filter_map
    by (simp add: missing_resource_def skipped_ref_def resolve_ref_def)
next
  assume "(\<forall>c \<in> set ds. plain_comp c) \<and> plain_comp f \<and> (\<forall>c \<in> set cs. plain_comp c) \<and> cs \<noteq> []"
  then show "normalize_path (path_join (normalize_path (dirname (join ''/'' (ds @ [f]))))
                        (join ''/'' (replicate k ''..'' @ cs)))
        = join ''/'' (replicate (k - length ds) ''..'' @ take (length ds - k) ds @ cs)"
    by (simp add: resolve_plain)
next
  assume "(lower a = ''src='' \<or> lower a = ''href='') \<and> q \<in> {CHR 0x22, CHR 0x27}
      \<and> q' \<in> {CHR 0x22, CHR 0x27} \<and> v \<noteq> [] \<and> CHR 0x22 \<notin> set v \<and> CHR 0x27 \<notin> set v"
  then show "find_refs (a @ q # v @ q' # post) = v # find_refs post"
    using find_refs_at_attribute [of a q q' v post] by blast
next
  show "has_scheme h \<longleftrightarrow>
      (\<exists>c s rest. h = c # s @ CHR '':'' # rest \<and> is_ascii_alpha c \<and> (\<forall>x \<in> set s. is_scheme_char x))"
    by (rule has_scheme_iff)
qed

text \<open>
  The theorem at the chapter \<^verbatim>\<open>text/ch1.xhtml\<close>: with one image reference, a fragment
  link and a link with a scheme, in an archive that lacks the image and in one that has
  it; and at a reference that climbs one directory. The fragment link and the link
  with a scheme are captured and skipped.
\<close>

theorem ref_issues_per_captured_value_witness:
  "plain_comp ''text'' \<and> plain_comp ''ch1.xhtml'' \<and> plain_comp ''img'' \<and> plain_comp ''cover.png'' \<and>
   lower ''SRC='' = ''src='' \<and>
   find_refs (''SRC='' @ CHR 0x22 # ''img/cover.png'' @ CHR 0x22 # ''/>'') = [''img/cover.png''] \<and>
   normalize_path (path_join (normalize_path (dirname ''text/ch1.xhtml'')) ''img/cover.png'')
     = ''text/img/cover.png'' \<and>
   normalize_path (path_join (normalize_path (dirname ''text/ch1.xhtml'')) ''../img/cover.png'')
     = ''img/cover.png'' \<and>
   find_refs chapter_text = [''img/cover.png'', ''#top'', ''https://example.org/''] \<and>
   count_list (find_html_issues ''text/ch1.xhtml'' chapter_text True {''text/ch1.xhtml''})
     ''missing referenced resource: text/img/cover.png'' = 1 \<and>
   count_list (find_html_issues ''text/ch1.xhtml'' chapter_text True {''text/ch1.xhtml''})
     ''missing referenced resource: text/#top'' = 0 \<and>
   count_list (find_html_issues ''text/ch1.xhtml'' chapter_text True {''text/ch1.xhtml''})
     ''missing referenced resource: text/https:/example.org'' = 0 \<and>
   count_list (find_html_issues ''text/ch1.xhtml'' chapter_text True
                 {''text/ch1.xhtml'', ''text/img/cover.png''})
     ''missing referenced resource: text/img/cover.png'' = 0 \<and>
   count_list (find_html_issues ''text/ch1.xhtml'' parent_link True {''text/ch1.xhtml''})
     ''missing referenced resource: img/cover.png'' = 1 \<and>
   is_ascii_alpha CHR ''h'' \<and> list_all is_scheme_char ''ttps'' \<and>
   has_scheme ''https://example.org/'' \<and> \<not> has_scheme ''img/cover.png'' \<and> \<not> has_scheme ''#top''"
proof -
  have p: "plain_comp ''text''" "plain_comp ''ch1.xhtml''" "plain_comp ''img''"
    "plain_comp ''cover.png''"
    by code_simp+
  have lo: "lower ''SRC='' = ''src=''" by code_simp
  have tl: "find_refs ''/>'' = []" by code_simp
  have fr: "find_refs chapter_text = [''img/cover.png'', ''#top'', ''https://example.org/'']"
    by code_simp
  have sc: "is_ascii_alpha CHR ''h''" "list_all is_scheme_char ''ttps''"
    "\<not> has_scheme ''img/cover.png''" "\<not> has_scheme ''#top''"
    by code_simp+
  have l1: "length (filter (\<lambda>v. strip v \<noteq> [] \<and> \<not> startswith (strip v) ''#''
                                \<and> \<not> has_scheme (strip v)
                                \<and> normalize_path (path_join (normalize_path (dirname ''text/ch1.xhtml''))
                                                     (strip v)) = ''text/img/cover.png'')
                     (find_refs chapter_text)) = 1"
    by code_simp
  have l2: "length (filter (\<lambda>v. strip v \<noteq> [] \<and> \<not> startswith (strip v) ''#''
                                \<and> \<not> has_scheme (strip v)
                                \<and> normalize_path (path_join (normalize_path (dirname ''text/ch1.xhtml''))
                                                     (strip v)) = ''img/cover.png'')
                     (find_refs parent_link)) = 1"
    by code_simp
  have l3: "length (filter (\<lambda>v. strip v \<noteq> [] \<and> \<not> startswith (strip v) ''#''
                                \<and> \<not> has_scheme (strip v)
                                \<and> normalize_path (path_join (normalize_path (dirname ''text/ch1.xhtml''))
                                                     (strip v)) = ''text/#top'')
                     (find_refs chapter_text)) = 0"
    by code_simp
  have l4: "length (filter (\<lambda>v. strip v \<noteq> [] \<and> \<not> startswith (strip v) ''#''
                                \<and> \<not> has_scheme (strip v)
                                \<and> normalize_path (path_join (normalize_path (dirname ''text/ch1.xhtml''))
                                                     (strip v)) = ''text/https:/example.org'')
                     (find_refs chapter_text)) = 0"
    by code_simp
  have hyp: "(\<forall>c \<in> set [''text'']. plain_comp c) \<and> plain_comp ''ch1.xhtml''
               \<and> (\<forall>c \<in> set [''img'', ''cover.png'']. plain_comp c) \<and> [''img'', ''cover.png''] \<noteq> []"
    using p by simp
  have cap: "(lower ''SRC='' = ''src='' \<or> lower ''SRC='' = ''href='') \<and> CHR 0x22 \<in> {CHR 0x22, CHR 0x27}
      \<and> CHR 0x22 \<in> {CHR 0x22, CHR 0x27} \<and> ''img/cover.png'' \<noteq> []
      \<and> CHR 0x22 \<notin> set ''img/cover.png'' \<and> CHR 0x27 \<notin> set ''img/cover.png''"
    using lo by simp
  have ex: "\<exists>c s rest. ''https://example.org/'' = c # s @ CHR '':'' # rest \<and> is_ascii_alpha c
               \<and> (\<forall>x \<in> set s. is_scheme_char x)"
  proof (intro exI conjI)
    show "''https://example.org/'' = CHR ''h'' # ''ttps'' @ CHR '':'' # ''//example.org/''" by simp
    show "is_ascii_alpha CHR ''h''" by (rule sc(1))
    show "\<forall>x \<in> set ''ttps''. is_scheme_char x" using sc(2) by (simp only: list_all_iff)
  qed
  note t1 = ref_issues_per_captured_value
         [of "''text/ch1.xhtml''" chapter_text True "{''text/ch1.xhtml''}" "''text/img/cover.png''"
             "[''text'']" "''ch1.xhtml''" "[''img'', ''cover.png'']" 0
             "''SRC=''" "CHR 0x22" "CHR 0x22" "''img/cover.png''" "''/>''" "''https://example.org/''"]
  from t1 have "find_refs (''SRC='' @ CHR 0x22 # ''img/cover.png'' @ CHR 0x22 # ''/>'')
                  = ''img/cover.png'' # find_refs ''/>''"
    using cap by blast
  with tl have w1: "find_refs (''SRC='' @ CHR 0x22 # ''img/cover.png'' @ CHR 0x22 # ''/>'')
                      = [''img/cover.png'']"
    by simp
  from t1 hyp have w2: "normalize_path (path_join (normalize_path (dirname ''text/ch1.xhtml''))
                          ''img/cover.png'') = ''text/img/cover.png''"
    by simp
  from t1 l1 have w3: "count_list (find_html_issues ''text/ch1.xhtml'' chapter_text True {''text/ch1.xhtml''})
               ''missing referenced resource: text/img/cover.png'' = 1"
    by simp
  from t1 ex have w9: "has_scheme ''https://example.org/''" by blast
  note t2 = ref_issues_per_captured_value
         [of "''text/ch1.xhtml''" chapter_text True "{''text/ch1.xhtml'', ''text/img/cover.png''}"
             "''text/img/cover.png''" "[''text'']" "''ch1.xhtml''" "[''img'', ''cover.png'']" "Suc 0"
             "''SRC=''" "CHR 0x22" "CHR 0x22" "''img/cover.png''" "''/>''" "''#top''"]
  from t2 hyp have w4: "normalize_path (path_join (normalize_path (dirname ''text/ch1.xhtml''))
                          ''../img/cover.png'') = ''img/cover.png''"
    by simp
  from t2 have w5: "count_list (find_html_issues ''text/ch1.xhtml'' chapter_text True
                 {''text/ch1.xhtml'', ''text/img/cover.png''})
               ''missing referenced resource: text/img/cover.png'' = 0"
    by simp
  note t3 = ref_issues_per_captured_value
         [of "''text/ch1.xhtml''" parent_link True "{''text/ch1.xhtml''}" "''img/cover.png''"
             "[''text'']" "''ch1.xhtml''" "[''img'', ''cover.png'']" 0
             "''SRC=''" "CHR 0x22" "CHR 0x22" "''img/cover.png''" "''/>''" "''#top''"]
  from t3 l2 have w6: "count_list (find_html_issues ''text/ch1.xhtml'' parent_link True {''text/ch1.xhtml''})
               ''missing referenced resource: img/cover.png'' = 1"
    by simp
  note t4 = ref_issues_per_captured_value
         [of "''text/ch1.xhtml''" chapter_text True "{''text/ch1.xhtml''}" "''text/#top''"
             "[''text'']" "''ch1.xhtml''" "[''img'', ''cover.png'']" 0
             "''SRC=''" "CHR 0x22" "CHR 0x22" "''img/cover.png''" "''/>''" "''#top''"]
  from t4 l3 have w7: "count_list (find_html_issues ''text/ch1.xhtml'' chapter_text True {''text/ch1.xhtml''})
               ''missing referenced resource: text/#top'' = 0"
    by simp
  note t5 = ref_issues_per_captured_value
         [of "''text/ch1.xhtml''" chapter_text True "{''text/ch1.xhtml''}" "''text/https:/example.org''"
             "[''text'']" "''ch1.xhtml''" "[''img'', ''cover.png'']" 0
             "''SRC=''" "CHR 0x22" "CHR 0x22" "''img/cover.png''" "''/>''" "''#top''"]
  from t5 l4 have w8: "count_list (find_html_issues ''text/ch1.xhtml'' chapter_text True {''text/ch1.xhtml''})
               ''missing referenced resource: text/https:/example.org'' = 0"
    by simp
  from p lo fr sc w1 w2 w3 w4 w5 w6 w7 w8 w9 show ?thesis by simp
qed

text \<open>
  Claim C6 as stated fails on attribute values that the pattern does not capture
  whole. A link to \<^verbatim>\<open>it's.html\<close>, a file that the archive holds, is checked as \<^verbatim>\<open>it\<close>
  and reported missing; a link written with spaces around the equals sign is not checked
  at all, so its absent target is reported zero times.
\<close>

theorem ref_issues_capture_counterexample:
  "find_html_issues ''text/ch1.xhtml'' apostrophe_link True
     {''text/ch1.xhtml'', ''text/'' @ apostrophe_name}
     = [''missing referenced resource: text/it''] \<and>
   find_html_issues ''text/ch1.xhtml'' spaced_link True {''text/ch1.xhtml''} = []"
  by code_simp

section \<open>Report Aggregator: the closing hint\<close>

lemma sorted_set_empty_iff: "finite s \<Longrightarrow> sorted_set s = [] \<longleftrightarrow> s = {}"
  by (simp add: sorted_set_def)

lemma no_set_difference:
  "sorted_set (set xs - set ys) = [] \<and> sorted_set (set ys - set xs) = [] \<longleftrightarrow> set xs = set ys"
  by (auto simp: sorted_set_empty_iff)

lemma same_spines:
  "spine_diff_idx a b = - 1 \<and> length a = length b \<longleftrightarrow> a = b"
proof
  assume h: "spine_diff_idx a b = - 1 \<and> length a = length b"
  then have "\<forall>j. j < min (length a) (length b) \<longrightarrow> a ! j = b ! j"
    by (simp add: spine_diff_idx_def spine_diff_from_none)
  with h show "a = b" by (intro nth_equalityI) auto
next
  assume "a = b"
  then show "spine_diff_idx a b = - 1 \<and> length a = length b"
    by (simp add: spine_diff_idx_def spine_diff_from_none)
qed

lemma mt_diffs_none:
  "mt_diffs_of a b = 0 \<longleftrightarrow>
     (\<forall>p \<in> set (manifest_paths a) \<inter> set (manifest_paths b). media_type_of a p = media_type_of b p)"
proof -
  have fin: "finite (set (manifest_paths a) \<inter> set (manifest_paths b))" by simp
  show ?thesis
    unfolding mt_diffs_of_def length_0_conv filter_empty_conv set_sorted_set [OF fin]
    by blast
qed

lemma hint_condition_iff:
  "hint_condition missing extra opf_o_rel opf_t_rel opf_o opf_t cmp non_html = Inr True \<longleftrightarrow>
     missing = [] \<and> extra = [] \<and> opf_o_rel = opf_t_rel \<and> non_html = [] \<and>
     (opf_o = None \<or>
      (\<exists>a b c. opf_o = Some a \<and> opf_t = Some b \<and> cmp = Some c \<and>
         man_missing c = [] \<and> man_extra c = [] \<and> diff_idx c = - 1 \<and>
         length (spine_paths a) = length (spine_paths b) \<and> mt_diffs_of a b = 0))"
  by (cases opf_o; cases opf_t; cases cmp) (auto simp: hint_condition_def)

lemma summary_opf_lines_no_hint:
  "summary_opf_lines opf_o opf_t cmp = Inr ls \<Longrightarrow> Summary_hint \<notin> set ls"
  by (cases opf_o; cases opf_t; cases cmp) (auto simp: summary_opf_lines_def split: if_splits)

lemma summary_hint_iff:
  "summary missing extra opf_o_rel opf_t_rel opf_o opf_t cmp non_html html_issues = Inr ls \<Longrightarrow>
     Summary_hint \<in> set ls
       \<longleftrightarrow> hint_condition missing extra opf_o_rel opf_t_rel opf_o opf_t cmp non_html = Inr True"
proof -
  assume s: "summary missing extra opf_o_rel opf_t_rel opf_o opf_t cmp non_html html_issues = Inr ls"
  then obtain opf_lines hint where
    o: "summary_opf_lines opf_o opf_t cmp = Inr opf_lines" and
    h: "hint_condition missing extra opf_o_rel opf_t_rel opf_o opf_t cmp non_html = Inr hint"
    by (auto simp: summary_def split: sum.splits)
  from summary_opf_lines_no_hint [OF o] s o h show ?thesis
    by (auto simp: summary_def split: if_splits)
qed

lemma opf_compare_no_hint: "Summary_hint \<notin> set (fst (opf_compare lib zt set_o set_t a b))"
  by (auto simp: opf_compare_def Let_def name_list_def)

lemma opf_compare_cmp:
  "snd (opf_compare lib zt set_o set_t a b) =
     \<lparr> man_missing = sorted_set (set (manifest_paths a) - set (manifest_paths b)),
       man_extra = sorted_set (set (manifest_paths b) - set (manifest_paths a)),
       diff_idx = spine_diff_idx (spine_paths a) (spine_paths b) \<rparr>"
  by (simp add: opf_compare_def Let_def)

lemma mimetype_check_no_hint:
  "mimetype_check lib label zf names = Inr ls \<Longrightarrow> Summary_hint \<notin> set ls"
  by (auto simp: mimetype_check_def Let_def split: if_splits sum.splits)

lemma mimetype_checks_no_hint:
  "mimetype_checks lib zo names_o zt names_t = Inr ls \<Longrightarrow> Summary_hint \<notin> set ls"
  by (auto simp: mimetype_checks_def split: sum.splits dest: mimetype_check_no_hint)

lemma file_set_lines_no_hint: "Summary_hint \<notin> set (file_set_lines names_o names_t)"
  by (auto simp: file_set_lines_def Let_def name_list_def)

lemma content_diff_loop_no_hint:
  "Summary_hint \<notin> set (changed st) \<Longrightarrow>
     Summary_hint \<notin> set (changed (content_diff_loop lib zo zt ps st))"
proof (induction ps arbitrary: st)
  case Nil
  then show ?case by simp
next
  case (Cons p ps)
  show ?case
    by (cases "zip_read zo p"; cases "zip_read zt p")
       (auto simp: Let_def Cons.prems intro!: Cons.IH)
qed

lemma content_diff_no_hint:
  "Summary_hint \<notin> set (take n (changed (content_diff lib zo zt names_o names_t)))"
proof -
  have "Summary_hint \<notin> set (changed (content_diff lib zo zt names_o names_t))"
    unfolding content_diff_def by (rule content_diff_loop_no_hint) simp
  then show ?thesis by (auto dest: in_set_takeD)
qed
text \<open>
  Claim C4, as amended. The closing summary emits the hint exactly when there are no
  missing or extra files, the two rootfile paths are equal, there is no non-markup
  content change (a changed mimetype entry is not counted as one), and either the
  original package document was not parsed or both were parsed and have the same set of
  manifest paths, the same reading order and no media-type difference. Violations of the
  mimetype invariants and unresolved manifest references have no part in the condition.
\<close>

theorem compare_epub_hint_iff:
  "compare_epub lib orig_path trans_path zo zt = Inr report \<Longrightarrow>
   extract_opf lib zo = Inr (c_o, opf_o_rel, opf_o) \<Longrightarrow>
   extract_opf lib zt = Inr (c_t, opf_t_rel, opf_t) \<Longrightarrow>
     Summary_hint \<in> set report \<longleftrightarrow>
       missing_files (zip_namelist_files zo) (zip_namelist_files zt) = [] \<and>
       extra_files (zip_namelist_files zo) (zip_namelist_files zt) = [] \<and>
       opf_o_rel = opf_t_rel \<and>
       non_html_changed (content_diff lib zo zt (zip_namelist_files zo) (zip_namelist_files zt)) = [] \<and>
       (opf_o = None \<or>
        (\<exists>a b. opf_o = Some a \<and> opf_t = Some b \<and>
           set (manifest_paths a) = set (manifest_paths b) \<and>
           spine_paths a = spine_paths b \<and>
           (\<forall>p \<in> set (manifest_paths a). media_type_of a p = media_type_of b p)))"
proof -
  let ?no = "zip_namelist_files zo" and ?nt = "zip_namelist_files zt"
  let ?st = "content_diff lib zo zt ?no ?nt"
  let ?cmp = "(case (opf_o, opf_t) of
                 (Some oo, Some tt) \<Rightarrow>
                   (let r = opf_compare lib zt (set ?no) (set ?nt) oo tt in (fst r, Some (snd r)))
               | _ \<Rightarrow> ([], None))"
  assume ret: "compare_epub lib orig_path trans_path zo zt = Inr report"
    and eo: "extract_opf lib zo = Inr (c_o, opf_o_rel, opf_o)"
    and et: "extract_opf lib zt = Inr (c_t, opf_t_rel, opf_t)"
  from ret eo et obtain ml hi sl where
    ml: "mimetype_checks lib zo ?no zt ?nt = Inr ml" and
    sl: "summary (missing_files ?no ?nt) (extra_files ?no ?nt) opf_o_rel opf_t_rel opf_o opf_t
           (snd ?cmp) (non_html_changed ?st) hi = Inr sl" and
    rep: "report =
            ([Orig_path orig_path, Tran_path trans_path, File_counts_banner,
              Orig_files (length ?no), Tran_files (length ?nt)] @ file_set_lines ?no ?nt)
            @ ml
            @ ([Opf_paths_banner, Orig_opf opf_o_rel, Tran_opf opf_t_rel]
               @ (if opf_o_rel \<noteq> opf_t_rel then [Opf_path_differs] else []))
            @ fst ?cmp
            @ (Content_diff_banner
               # (if changed ?st \<noteq> [] then take 50 (changed ?st) else [No_content_diffs]))
            @ (if hi \<noteq> [] then Html_issues_banner # map Html_issue (take 50 hi) else [])
            @ sl"
    by (auto simp: compare_epub_def Let_def split: sum.splits)
  have c: "Summary_hint \<notin> set (fst ?cmp)"
    by (cases opf_o; cases opf_t) (simp_all add: Let_def opf_compare_no_hint)
  have "Summary_hint \<in> set report \<longleftrightarrow> Summary_hint \<in> set sl"
    unfolding rep
    using mimetype_checks_no_hint [OF ml] c file_set_lines_no_hint [of ?no ?nt]
      content_diff_no_hint [of 50 lib zo zt ?no ?nt]
    by (auto split: if_splits)
  also have "\<dots> \<longleftrightarrow>
      hint_condition (missing_files ?no ?nt) (extra_files ?no ?nt) opf_o_rel opf_t_rel opf_o opf_t
        (snd ?cmp) (non_html_changed ?st) = Inr True"
    by (rule summary_hint_iff [OF sl])
  also have "\<dots> \<longleftrightarrow>
       missing_files ?no ?nt = [] \<and> extra_files ?no ?nt = [] \<and> opf_o_rel = opf_t_rel \<and>
       non_html_changed ?st = [] \<and>
       (opf_o = None \<or>
        (\<exists>a b. opf_o = Some a \<and> opf_t = Some b \<and>
           set (manifest_paths a) = set (manifest_paths b) \<and>
           spine_paths a = spine_paths b \<and>
           (\<forall>p \<in> set (manifest_paths a). media_type_of a p = media_type_of b p)))"
  proof (cases opf_o)
    case None
    then show ?thesis by (simp add: hint_condition_iff)
  next
    case a: (Some a)
    show ?thesis
    proof (cases opf_t)
      case None
      with a show ?thesis by (simp add: hint_condition_iff)
    next
      case b: (Some b)
      have "(sorted_set (set (manifest_paths a) - set (manifest_paths b)) = [] \<and>
             sorted_set (set (manifest_paths b) - set (manifest_paths a)) = [] \<and>
             spine_diff_idx (spine_paths a) (spine_paths b) = - 1 \<and>
             length (spine_paths a) = length (spine_paths b) \<and> mt_diffs_of a b = 0)
            \<longleftrightarrow> (set (manifest_paths a) = set (manifest_paths b) \<and>
                 spine_paths a = spine_paths b \<and>
                 (\<forall>p \<in> set (manifest_paths a). media_type_of a p = media_type_of b p))"
        using no_set_difference [of "manifest_paths a" "manifest_paths b"]
          same_spines [of "spine_paths a" "spine_paths b"] mt_diffs_none [of a b]
        by auto
      with a b show ?thesis
        by (simp add: hint_condition_iff Let_def opf_compare_cmp)
    qed
  qed
  finally show ?thesis .
qed

text \<open>
  The theorem at two copies of an archive whose package document is parsed: the hint is
  emitted, and every part of the condition holds.
\<close>

theorem compare_epub_hint_iff_witness:
  "\<not> isl (compare_epub epub_lib ''a.epub'' ''b.epub'' dangling_epub dangling_epub) \<and>
   \<not> isl (extract_opf epub_lib dangling_epub) \<and>
   snd (snd (projr (extract_opf epub_lib dangling_epub))) \<noteq> None \<and>
   Summary_hint \<in> set (projr (compare_epub epub_lib ''a.epub'' ''b.epub'' dangling_epub dangling_epub)) \<and>
   missing_files (zip_namelist_files dangling_epub) (zip_namelist_files dangling_epub) = [] \<and>
   non_html_changed (content_diff epub_lib dangling_epub dangling_epub
                       (zip_namelist_files dangling_epub) (zip_namelist_files dangling_epub)) = []"
proof -
  let ?c = "compare_epub epub_lib ''a.epub'' ''b.epub'' dangling_epub dangling_epub"
  let ?e = "extract_opf epub_lib dangling_epub"
  have a: "\<not> isl ?c" by code_simp
  have b: "\<not> isl ?e" by code_simp
  have p: "snd (snd (projr ?e)) \<noteq> None" by code_simp
  have h: "Summary_hint \<in> set (projr ?c)" by code_simp
  from a have c: "?c = Inr (projr ?c)" by (cases ?c) auto
  from b have e: "?e = Inr (fst (projr ?e), fst (snd (projr ?e)), snd (snd (projr ?e)))"
    by (cases ?e) auto
  from compare_epub_hint_iff [OF c e e] a b p h show ?thesis by simp
qed

text \<open>
  Claim C4 as stated fails: the hint is emitted for two copies of an archive whose
  mimetype entry is deflated, next to the two storage errors, and for two copies of an
  archive whose manifest refers to files that the archive does not hold.
\<close>

theorem compare_epub_hint_counterexample:
  "compare_epub example_lib ''a.epub'' ''b.epub''
     [entry ''mimetype'' 8 ''application/epub+zip''] [entry ''mimetype'' 8 ''application/epub+zip'']
   = Inr [Orig_path ''a.epub'', Tran_path ''b.epub'', File_counts_banner, Orig_files 1, Tran_files 1,
          Mimetype_info ''orig'' ''application/epub+zip'' True 8, Mimetype_not_stored ''orig'',
          Mimetype_info ''tran'' ''application/epub+zip'' True 8, Mimetype_not_stored ''tran'',
          Opf_paths_banner, Orig_opf None, Tran_opf None,
          Content_diff_banner, No_content_diffs, Summary_banner, Summary_hint] \<and>
   Tran_manifest_missing_file ''style.css''
     \<in> set (projr (compare_epub epub_lib ''a.epub'' ''b.epub'' dangling_epub dangling_epub)) \<and>
   Summary_hint \<in> set (projr (compare_epub epub_lib ''a.epub'' ''b.epub'' dangling_epub dangling_epub))"
  by code_simp

end
